theory Spec2Isabelle
  imports Complex_Main "HOL-Library.Multiset"
begin

section \<open>Point types\<close>

text \<open>
  The solvers are templates over a point type \<open>Pt\<close>: a struct of floats with the positional
  fields \<open>x\<close>, \<open>y\<close>, \<open>z\<close> and any number of further integrated fields (\<open>float3\<close> has none,
  \<open>Lb_cell\<close> has \<open>w, f, theta, phi\<close>). The further fields are kept as one value of a
  real vector space \<open>'a\<close>. Floats are modelled as reals: sums are exact and do not depend on
  their order; a division by zero, which has no real value, is an error of the model.

  Modelled from the spec: the arithmetic of \<open>Pt\<close> and \<open>float3\<close> (\<open>+\<close>, \<open>-\<close>, \<open>*\<close> by a
  scalar, \<open>/\<close> by a scalar, \<open>Pt {0}\<close>) lives in \<open>dtypes.cuh\<close>, which is not part of the
  sources at hand; it is component-wise over all fields.
\<close>

datatype 'a Pt = Pt (Pt_x: real) (Pt_y: real) (Pt_z: real) (Pt_aux: 'a)

datatype float3 = Float3 (f3_x: real) (f3_y: real) (f3_z: real)

instantiation Pt :: (real_vector) real_vector
begin

definition zero_Pt :: "'a Pt" where
  "zero_Pt = Pt 0 0 0 0"

definition plus_Pt :: "'a Pt \<Rightarrow> 'a Pt \<Rightarrow> 'a Pt" where
  "plus_Pt a b = Pt (Pt_x a + Pt_x b) (Pt_y a + Pt_y b) (Pt_z a + Pt_z b) (Pt_aux a + Pt_aux b)"

definition minus_Pt :: "'a Pt \<Rightarrow> 'a Pt \<Rightarrow> 'a Pt" where
  "minus_Pt a b = Pt (Pt_x a - Pt_x b) (Pt_y a - Pt_y b) (Pt_z a - Pt_z b) (Pt_aux a - Pt_aux b)"

definition uminus_Pt :: "'a Pt \<Rightarrow> 'a Pt" where
  "uminus_Pt a = Pt (- Pt_x a) (- Pt_y a) (- Pt_z a) (- Pt_aux a)"

definition scaleR_Pt :: "real \<Rightarrow> 'a Pt \<Rightarrow> 'a Pt" where
  "scaleR_Pt c a = Pt (c * Pt_x a) (c * Pt_y a) (c * Pt_z a) (c *\<^sub>R Pt_aux a)"

instance
  by standard
    (simp_all add: zero_Pt_def plus_Pt_def minus_Pt_def uminus_Pt_def scaleR_Pt_def
      algebra_simps Pt.expand)

end

instantiation float3 :: ab_group_add
begin

definition zero_float3 :: float3 where
  "zero_float3 = Float3 0 0 0"

definition plus_float3 :: "float3 \<Rightarrow> float3 \<Rightarrow> float3" where
  "plus_float3 a b = Float3 (f3_x a + f3_x b) (f3_y a + f3_y b) (f3_z a + f3_z b)"

definition minus_float3 :: "float3 \<Rightarrow> float3 \<Rightarrow> float3" where
  "minus_float3 a b = Float3 (f3_x a - f3_x b) (f3_y a - f3_y b) (f3_z a - f3_z b)"

definition uminus_float3 :: "float3 \<Rightarrow> float3" where
  "uminus_float3 a = Float3 (- f3_x a) (- f3_y a) (- f3_z a)"

instance
  by standard
    (simp_all add: zero_float3_def plus_float3_def minus_float3_def uminus_float3_def
      float3.expand)

end

text \<open>\<open>Pt / n\<close>: every field divided by the scalar.\<close>

definition Pt_divide :: "'a::real_vector Pt \<Rightarrow> real \<Rightarrow> 'a Pt" where
  "Pt_divide a c = Pt (Pt_x a / c) (Pt_y a / c) (Pt_z a / c) (Pt_aux a /\<^sub>R c)"

datatype error = AssertionFailed | DivisionByZero | OutOfBounds

section \<open>Solution: the host and device mirrors\<close>

text \<open>
  \<open>N2n_solver\<close> owns the device buffers; \<open>Solution\<close> derives from the solver and adds the
  host mirror. Every buffer has \<open>n_max\<close> elements (the template parameter, passed to the
  functions here). The counts are C \<open>int\<close>s.
\<close>

record 'a N2n_solver =
  d_X :: "'a Pt list"
  d_dX :: "'a Pt list"
  d_X1 :: "'a Pt list"
  d_dX1 :: "'a Pt list"
  d_old_v :: "float3 list"
  d_sum_v :: "float3 list"
  d_n :: int
  d_nNBs :: "int list"

record 'a Solution = "'a N2n_solver" +
  h_X :: "'a Pt list"
  h_n :: int

text \<open>\<open>cudaMemcpy(dst, src, k*sizeof(T), _)\<close>: the first \<open>k\<close> elements of \<open>dst\<close> are replaced.\<close>

definition cudaMemcpy :: "'b list \<Rightarrow> 'b list \<Rightarrow> nat \<Rightarrow> 'b list" where
  "cudaMemcpy dst src k = take k src @ drop k dst"

definition copy_to_device :: "int \<Rightarrow> ('a, 'm) Solution_scheme \<Rightarrow> error + ('a, 'm) Solution_scheme" where
  "copy_to_device n_max s =
     (if \<not> h_n s \<le> n_max then Inl AssertionFailed
      else Inr (s\<lparr>d_X := cudaMemcpy (d_X s) (h_X s) (nat n_max), d_n := h_n s\<rparr>))"

definition copy_to_host :: "int \<Rightarrow> ('a, 'm) Solution_scheme \<Rightarrow> error + ('a, 'm) Solution_scheme" where
  "copy_to_host n_max s =
     (let s' = s\<lparr>h_X := cudaMemcpy (h_X s) (d_X s) (nat n_max), h_n := d_n s\<rparr>
      in if \<not> h_n s' \<le> n_max then Inl AssertionFailed else Inr s')"


section \<open>Kernel launches and thrust primitives\<close>

text \<open>
  A launch \<open>kernel<<<(n + 32 - 1)/32, 32>>>\<close> runs the kernel's body once for every thread
  index of the grid. No thread of the kernels below reads a location that another thread
  of the same launch writes, so the launch is the threads' bodies in sequence. A kernel with
  an assertion or a possible fault returns \<open>Inl\<close> at the first thread that fails.
\<close>

definition grid :: "nat \<Rightarrow> nat list" where
  "grid n = [0..<((n + 32 - 1) div 32) * 32]"

fun launch_err :: "(nat \<Rightarrow> 's \<Rightarrow> error + 's) \<Rightarrow> nat list \<Rightarrow> 's \<Rightarrow> error + 's" where
  "launch_err body [] s = Inr s"
| "launch_err body (i # is) s =
     (case body i s of Inl e \<Rightarrow> Inl e | Inr s' \<Rightarrow> launch_err body is s')"

text \<open>\<open>thrust::fill(xs, xs + n, v)\<close> and \<open>thrust::reduce(xs, xs + n, Pt {0})\<close>.\<close>

definition thrust_fill :: "'b list \<Rightarrow> nat \<Rightarrow> 'b \<Rightarrow> 'b list" where
  "thrust_fill xs n v = replicate (min n (length xs)) v @ drop n xs"

definition thrust_reduce :: "'b::comm_monoid_add list \<Rightarrow> nat \<Rightarrow> 'b" where
  "thrust_reduce xs n = sum_list (take n xs)"

section \<open>The integrator kernels\<close>

type_synonym 'a Pairwise_interaction = "'a Pt \<Rightarrow> 'a Pt \<Rightarrow> real \<Rightarrow> nat \<Rightarrow> nat \<Rightarrow> 'a Pt"

type_synonym 'a Generic_forces = "'a Pt list \<Rightarrow> 'a Pt list \<Rightarrow> 'a Pt list"

definition euler_step_thread ::
  "nat \<Rightarrow> real \<Rightarrow> 'a::real_vector Pt list \<Rightarrow> 'a Pt \<Rightarrow> nat \<Rightarrow>
   'a Pt list \<times> 'a Pt list \<Rightarrow> 'a Pt list \<times> 'a Pt list" where
  "euler_step_thread n_cells dt d_X0 mean_dX i s =
     (case s of (dX, X) \<Rightarrow>
        if i \<ge> n_cells then (dX, X)
        else
          let dX' = dX[i := Pt (Pt_x (dX ! i) - Pt_x mean_dX) (Pt_y (dX ! i) - Pt_y mean_dX)
                              (Pt_z (dX ! i) - Pt_z mean_dX) (Pt_aux (dX ! i))]
          in (dX', X[i := d_X0 ! i + dt *\<^sub>R (dX' ! i)]))"

definition euler_step ::
  "nat \<Rightarrow> real \<Rightarrow> 'a::real_vector Pt list \<Rightarrow> 'a Pt \<Rightarrow> 'a Pt list \<Rightarrow> 'a Pt list \<Rightarrow>
   'a Pt list \<times> 'a Pt list" where
  "euler_step n_cells dt d_X0 mean_dX dX X =
     fold (euler_step_thread n_cells dt d_X0 mean_dX) (grid n_cells) (dX, X)"

definition heun_step_thread ::
  "nat \<Rightarrow> real \<Rightarrow> 'a::real_vector Pt list \<Rightarrow> 'a Pt \<Rightarrow> nat \<Rightarrow>
   'a Pt list \<times> 'a Pt list \<times> float3 list \<Rightarrow> 'a Pt list \<times> 'a Pt list \<times> float3 list" where
  "heun_step_thread n_cells dt dX mean_dX1 i s =
     (case s of (dX1, X, old_v) \<Rightarrow>
        if i \<ge> n_cells then (dX1, X, old_v)
        else
          let dX1' = dX1[i := Pt (Pt_x (dX1 ! i) - Pt_x mean_dX1) (Pt_y (dX1 ! i) - Pt_y mean_dX1)
                                (Pt_z (dX1 ! i) - Pt_z mean_dX1) (Pt_aux (dX1 ! i))]
          in (dX1',
              X[i := X ! i + dt *\<^sub>R (0.5 *\<^sub>R (dX ! i + dX1' ! i))],
              old_v[i := Float3 ((Pt_x (dX ! i) + Pt_x (dX1' ! i)) * 0.5)
                                ((Pt_y (dX ! i) + Pt_y (dX1' ! i)) * 0.5)
                                ((Pt_z (dX ! i) + Pt_z (dX1' ! i)) * 0.5)]))"

definition heun_step ::
  "nat \<Rightarrow> real \<Rightarrow> 'a::real_vector Pt list \<Rightarrow> 'a Pt \<Rightarrow> 'a Pt list \<Rightarrow> 'a Pt list \<Rightarrow> float3 list \<Rightarrow>
   'a Pt list \<times> 'a Pt list \<times> float3 list" where
  "heun_step n_cells dt dX mean_dX1 dX1 X old_v =
     fold (heun_step_thread n_cells dt dX mean_dX1) (grid n_cells) (dX1, X, old_v)"

text \<open>
  \<open>add_rhs\<close> divides the float \<open>d_sum_v[i]\<close> by the int \<open>d_nNBs[i]\<close> with no test of the
  divisor. With \<open>d_nNBs[i] = 0\<close> the float result is an infinity or a NaN, which the code
  writes to that entity while the other threads go on. No real stands for it: the model
  returns \<open>DivisionByZero\<close> for the launch, and nothing is stated about the arrays after
  such a launch. The two \<open>D_ASSERT\<close>s test for NaN and hold of every real.
\<close>

definition add_rhs_thread ::
  "nat \<Rightarrow> float3 list \<Rightarrow> int list \<Rightarrow> nat \<Rightarrow> 'a Pt list \<Rightarrow> error + 'a Pt list" where
  "add_rhs_thread n_cells sum_v nNBs i dX =
     (if i \<ge> n_cells then Inr dX
      else if nNBs ! i = 0 then Inl DivisionByZero
      else Inr (dX[i := Pt (Pt_x (dX ! i) + f3_x (sum_v ! i) / real_of_int (nNBs ! i))
                          (Pt_y (dX ! i) + f3_y (sum_v ! i) / real_of_int (nNBs ! i))
                          (Pt_z (dX ! i) + f3_z (sum_v ! i) / real_of_int (nNBs ! i))
                          (Pt_aux (dX ! i))]))"

definition add_rhs :: "nat \<Rightarrow> float3 list \<Rightarrow> int list \<Rightarrow> 'a Pt list \<Rightarrow> error + 'a Pt list" where
  "add_rhs n_cells sum_v nNBs dX = launch_err (add_rhs_thread n_cells sum_v nNBs) (grid n_cells) dX"

section \<open>The tiled pairwise evaluator\<close>

definition TILE_SIZE :: nat where
  "TILE_SIZE = 32"

definition norm3df :: "real \<Rightarrow> real \<Rightarrow> real \<Rightarrow> real" where
  "norm3df a b c = sqrt (a * a + b * b + c * c)"

text \<open>
  The block's shared tile after the load phase and \<open>__syncthreads()\<close>: thread \<open>t\<close> of the
  block has stored \<open>d_X[tile_start + t]\<close> when that index is live; the other slots keep
  what they held.
\<close>

definition load_tile :: "nat \<Rightarrow> 'a Pt list \<Rightarrow> nat \<Rightarrow> 'a Pt list \<Rightarrow> 'a Pt list" where
  "load_tile n_cells X tile_start shX =
     map (\<lambda>t. if tile_start + t < n_cells then X ! (tile_start + t) else shX ! t) [0..<TILE_SIZE]"

text \<open>The loop over \<open>k\<close> of thread \<open>i\<close>; the state is \<open>(Fi, d_sum_v, d_nNBs)\<close>.\<close>

function tile_k_loop ::
  "nat \<Rightarrow> 'a::real_vector Pt list \<Rightarrow> float3 list \<Rightarrow> 'a Pairwise_interaction \<Rightarrow> nat \<Rightarrow> nat \<Rightarrow>
   'a Pt list \<Rightarrow> nat \<Rightarrow> 'a Pt \<times> float3 list \<times> int list \<Rightarrow> 'a Pt \<times> float3 list \<times> int list" where
  "tile_k_loop n_cells X old_v pw_int i tile_start shX k st =
     (if k < TILE_SIZE then
        (let j = tile_start + k in
         if i < n_cells \<and> j < n_cells then
           (case st of (Fi, sum_v, nNBs) \<Rightarrow>
              let r = X ! i - shX ! k;
                  dist = norm3df (Pt_x r) (Pt_y r) (Pt_z r);
                  nNBs' = (if dist < 1 then nNBs[i := nNBs ! i + 1] else nNBs);
                  sum_v' = (if dist < 1 then sum_v[i := sum_v ! i + old_v ! j] else sum_v)
              in tile_k_loop n_cells X old_v pw_int i tile_start shX (k + 1)
                   (Fi + pw_int (X ! i) r dist i j, sum_v', nNBs'))
         else tile_k_loop n_cells X old_v pw_int i tile_start shX (k + 1) st)
      else st)"
  by pat_completeness auto
termination
  by (relation "measure (\<lambda>(n_cells, X, old_v, pw_int, i, tile_start, shX, k, st). TILE_SIZE - k)") auto

text \<open>The loop over the tiles of thread \<open>i\<close>, with the shared tile as the block leaves it.\<close>

function tile_loop ::
  "nat \<Rightarrow> 'a::real_vector Pt list \<Rightarrow> float3 list \<Rightarrow> 'a Pairwise_interaction \<Rightarrow> nat \<Rightarrow> nat \<Rightarrow>
   'a Pt list \<Rightarrow> 'a Pt \<times> float3 list \<times> int list \<Rightarrow> 'a Pt \<times> float3 list \<times> int list" where
  "tile_loop n_cells X old_v pw_int i tile_start shX st =
     (if tile_start < n_cells then
        (let shX' = load_tile n_cells X tile_start shX
         in tile_loop n_cells X old_v pw_int i (tile_start + TILE_SIZE) shX'
              (tile_k_loop n_cells X old_v pw_int i tile_start shX' 0 st))
      else st)"
  by pat_completeness auto
termination
  by (relation "measure (\<lambda>(n_cells, X, old_v, pw_int, i, tile_start, shX, st). n_cells - tile_start)")
    (auto simp: TILE_SIZE_def)

text \<open>
  Thread \<open>i\<close> of \<open>compute_tiles\<close>. \<open>shX0\<close> gives, per block, what the shared tile holds when the
  block starts (it is not initialised).
\<close>

definition compute_tiles_thread ::
  "nat \<Rightarrow> 'a::real_vector Pt list \<Rightarrow> float3 list \<Rightarrow> 'a Pairwise_interaction \<Rightarrow> (nat \<Rightarrow> 'a Pt list) \<Rightarrow>
   nat \<Rightarrow> 'a Pt list \<times> float3 list \<times> int list \<Rightarrow> 'a Pt list \<times> float3 list \<times> int list" where
  "compute_tiles_thread n_cells X old_v pw_int shX0 i s =
     (case s of (dX, sum_v, nNBs) \<Rightarrow>
        (case tile_loop n_cells X old_v pw_int i 0 (shX0 (i div TILE_SIZE)) (0, sum_v, nNBs) of
           (Fi, sum_v', nNBs') \<Rightarrow> (if i < n_cells then dX[i := Fi] else dX, sum_v', nNBs')))"

definition compute_tiles ::
  "nat \<Rightarrow> 'a::real_vector Pairwise_interaction \<Rightarrow> (nat \<Rightarrow> 'a Pt list) \<Rightarrow> 'a Pt list \<Rightarrow> 'a Pt list \<Rightarrow>
   float3 list \<Rightarrow> float3 list \<Rightarrow> int list \<Rightarrow> 'a Pt list \<times> float3 list \<times> int list" where
  "compute_tiles n_cells pw_int shX0 X dX old_v sum_v nNBs =
     fold (compute_tiles_thread n_cells X old_v pw_int shX0)
       [0..<((n_cells + TILE_SIZE - 1) div TILE_SIZE) * TILE_SIZE] (dX, sum_v, nNBs)"

section \<open>The solver step\<close>

definition get_d_n :: "int \<Rightarrow> ('a, 'm) N2n_solver_scheme \<Rightarrow> error + int" where
  "get_d_n n_max s = (if \<not> d_n s \<le> n_max then Inl AssertionFailed else Inr (d_n s))"

text \<open>
  \<open>N2n_solver::take_step\<close>. The call of \<open>compute_pwints\<close> in it is bound to
  \<open>N2n_solver::compute_pwints\<close>, the launch of \<open>compute_tiles\<close>. With no live entity the
  launches have no thread and the mean, \<open>0/0\<close>, is not used.
\<close>

definition take_step ::
  "int \<Rightarrow> 'a::real_vector Pairwise_interaction \<Rightarrow> (nat \<Rightarrow> 'a Pt list) \<Rightarrow> real \<Rightarrow> 'a Generic_forces \<Rightarrow>
   ('a, 'm) N2n_solver_scheme \<Rightarrow> error + ('a, 'm) N2n_solver_scheme" where
  "take_step n_max pw_int shX0 dt gen_forces s =
     (case get_d_n n_max s of
        Inl e \<Rightarrow> Inl e
      | Inr ni \<Rightarrow>
          (let n = nat ni;
               nNBs0 = thrust_fill (d_nNBs s) n 0;
               sum_v0 = thrust_fill (d_sum_v s) n 0;
               (dXa, sum_va, nNBsa) =
                  compute_tiles n pw_int shX0 (d_X s) (d_dX s) (d_old_v s) sum_v0 nNBs0;
               dXb = gen_forces (d_X s) dXa
           in (case add_rhs n sum_va nNBsa dXb of
                 Inl e \<Rightarrow> Inl e
               | Inr dXc \<Rightarrow>
                   (let mean_dX = Pt_divide (thrust_reduce dXc n) (real_of_int ni);
                        (dX', X1') = euler_step n dt (d_X s) mean_dX dXc (d_X1 s);
                        nNBs1 = thrust_fill nNBsa n 0;
                        sum_v1 = thrust_fill sum_va n 0;
                        (dX1a, sum_vb, nNBsb) =
                           compute_tiles n pw_int shX0 X1' (d_dX1 s) (d_old_v s) sum_v1 nNBs1;
                        dX1b = gen_forces X1' dX1a
                    in (case add_rhs n sum_vb nNBsb dX1b of
                          Inl e \<Rightarrow> Inl e
                        | Inr dX1c \<Rightarrow>
                            (let mean_dX1 = Pt_divide (thrust_reduce dX1c n) (real_of_int ni);
                                 (dX1', X', old_v') =
                                    heun_step n dt dX' mean_dX1 dX1c (d_X s) (d_old_v s)
                             in Inr (s\<lparr>d_X := X', d_dX := dX', d_X1 := X1', d_dX1 := dX1',
                                        d_old_v := old_v', d_sum_v := sum_vb,
                                        d_nNBs := nNBsb\<rparr>)))))))"

section \<open>The lattice\<close>

definition CUBE_SIZE :: real where
  "CUBE_SIZE = 1"

definition LATTICE_SIZE :: int where
  "LATTICE_SIZE = 50"

definition N_CUBES :: int where
  "N_CUBES = LATTICE_SIZE * LATTICE_SIZE * LATTICE_SIZE"

text \<open>
  \<open>d_cube_id\<close> and \<open>d_cell_id\<close> have \<open>n_max\<close> elements, \<open>d_cube_start\<close> and \<open>d_cube_end\<close> have
  \<open>N_CUBES\<close>. A cell id is the index of a thread and is kept as a natural number.
\<close>

record Lattice =
  d_cube_id :: "int list"
  d_cell_id :: "nat list"
  d_cube_start :: "int list"
  d_cube_end :: "int list"

text \<open>
  The offsets of the 27 cubes around a cube, as the constructor of \<open>Lattice_solver\<close> fills
  \<open>h_moore_nhood\<close> and copies it to \<open>d_moore_nhood\<close>. Every entry is written before it is
  read, so the initial content of the array does not matter.
\<close>

definition h_moore_nhood :: "int list" where
  "h_moore_nhood =
     (let h0 = ((replicate 27 0)[0 := - 1, 1 := 0, 2 := 1]);
          h1 = fold (\<lambda>i h. let h' = h[i + 3 := h ! (i mod 3) - LATTICE_SIZE]
                            in h'[i + 6 := h' ! (i mod 3) + LATTICE_SIZE]) [0..<3] h0
      in fold (\<lambda>i h. let h' = h[i + 9 := h ! (i mod 9) - LATTICE_SIZE * LATTICE_SIZE]
                      in h'[i + 18 := h' ! (i mod 9) + LATTICE_SIZE * LATTICE_SIZE]) [0..<9] h1)"

text \<open>
  Modelled from the spec: \<open>D_ASSERT\<close> is a macro of \<open>cudebug.cuh\<close>, which is not part of the
  sources at hand; a failed \<open>D_ASSERT\<close> is a failure of the kernel.
\<close>

definition compute_cube_ids_thread ::
  "nat \<Rightarrow> 'a Pt list \<Rightarrow> real \<Rightarrow> nat \<Rightarrow> Lattice \<Rightarrow> error + Lattice" where
  "compute_cube_ids_thread n_cells X cube_size i lat =
     (if i \<ge> n_cells then Inr lat
      else
        let id = (\<lfloor>Pt_x (X ! i) / cube_size\<rfloor> + LATTICE_SIZE div 2) +
                 (\<lfloor>Pt_y (X ! i) / cube_size\<rfloor> + LATTICE_SIZE div 2) * LATTICE_SIZE +
                 (\<lfloor>Pt_z (X ! i) / cube_size\<rfloor> + LATTICE_SIZE div 2) * LATTICE_SIZE * LATTICE_SIZE
        in if \<not> id \<ge> 0 then Inl AssertionFailed
           else if \<not> id < N_CUBES then Inl AssertionFailed
           else Inr (lat\<lparr>d_cube_id := (d_cube_id lat)[i := id],
                          d_cell_id := (d_cell_id lat)[i := i]\<rparr>))"

definition compute_cube_ids :: "nat \<Rightarrow> 'a Pt list \<Rightarrow> Lattice \<Rightarrow> real \<Rightarrow> error + Lattice" where
  "compute_cube_ids n_cells X lat cube_size =
     launch_err (compute_cube_ids_thread n_cells X cube_size) (grid n_cells) lat"

text \<open>A write to \<open>d_cube_start\<close> or \<open>d_cube_end\<close> outside the array is a fault.\<close>

definition compute_cube_start_and_end_thread :: "nat \<Rightarrow> nat \<Rightarrow> Lattice \<Rightarrow> error + Lattice" where
  "compute_cube_start_and_end_thread n_cells i lat =
     (if i \<ge> n_cells then Inr lat
      else
        let cube = d_cube_id lat ! i;
            prev = (if i > 0 then d_cube_id lat ! (i - 1) else - 1);
            next = (if int i < int n_cells - 1 then d_cube_id lat ! (i + 1)
                    else d_cube_id lat ! i + 1)
        in if (cube \<noteq> prev \<or> cube \<noteq> next) \<and> (cube < 0 \<or> cube \<ge> N_CUBES) then Inl OutOfBounds
           else
             let lat1 = (if cube \<noteq> prev
                         then lat\<lparr>d_cube_start := (d_cube_start lat)[nat cube := int i]\<rparr> else lat)
             in Inr (if cube \<noteq> next
                     then lat1\<lparr>d_cube_end := (d_cube_end lat1)[nat cube := int i]\<rparr> else lat1))"

definition compute_cube_start_and_end :: "nat \<Rightarrow> Lattice \<Rightarrow> error + Lattice" where
  "compute_cube_start_and_end n_cells lat =
     launch_err (compute_cube_start_and_end_thread n_cells) (grid n_cells) lat"

text \<open>
  \<open>thrust::sort_by_key(keys, keys + n, values)\<close> is library code. It is a parameter \<open>srt\<close> of
  the model: any function on the list of (key, value) pairs that returns a permutation of
  it with the keys in ascending order; how it orders equal keys is left open.
\<close>

definition key_sorter :: "((int \<times> nat) list \<Rightarrow> (int \<times> nat) list) \<Rightarrow> bool" where
  "key_sorter srt = (\<forall>kvs. sorted (map fst (srt kvs)) \<and> mset (srt kvs) = mset kvs)"

definition thrust_sort_by_key ::
  "((int \<times> nat) list \<Rightarrow> (int \<times> nat) list) \<Rightarrow> int list \<Rightarrow> nat list \<Rightarrow> nat \<Rightarrow> int list \<times> nat list" where
  "thrust_sort_by_key srt keys vals n =
     (let kvs = srt (zip (take n keys) (take n vals))
      in (map fst kvs @ drop n keys, map snd kvs @ drop n vals))"

text \<open>\<open>Lattice_solver::build_lattice(d_X, cube_size)\<close>; \<open>dn\<close> is the device's count \<open>*d_n\<close>.\<close>

definition build_lattice ::
  "int \<Rightarrow> ((int \<times> nat) list \<Rightarrow> (int \<times> nat) list) \<Rightarrow> int \<Rightarrow> 'a Pt list \<Rightarrow> real \<Rightarrow> Lattice \<Rightarrow>
   error + Lattice" where
  "build_lattice n_max srt dn X cube_size lat =
     (if \<not> dn \<le> n_max then Inl AssertionFailed
      else
        let n = nat dn
        in (case compute_cube_ids n X lat cube_size of
              Inl e \<Rightarrow> Inl e
            | Inr lat1 \<Rightarrow>
                (let lat2 = lat1\<lparr>d_cube_start := thrust_fill (d_cube_start lat1) (nat N_CUBES) (- 1)\<rparr>;
                     lat3 = lat2\<lparr>d_cube_end := thrust_fill (d_cube_end lat2) (nat N_CUBES) (- 2)\<rparr>;
                     (ids, cells) = thrust_sort_by_key srt (d_cube_id lat3) (d_cell_id lat3) n
                 in compute_cube_start_and_end n (lat3\<lparr>d_cube_id := ids, d_cell_id := cells\<rparr>))))"

section \<open>The lattice pairwise evaluator\<close>

text \<open>
  The loop over the sorted positions \<open>k\<close> of one cube, from \<open>d_cube_start[cube]\<close> to
  \<open>d_cube_end[cube]\<close>; the state is \<open>(F, d_sum_v, d_nNBs)\<close>. A read of \<open>d_cell_id\<close> outside the
  array is a fault.
\<close>

function lattice_k_loop ::
  "'a::real_vector Pt list \<Rightarrow> float3 list \<Rightarrow> 'a Pairwise_interaction \<Rightarrow> Lattice \<Rightarrow> nat \<Rightarrow> 'a Pt \<Rightarrow>
   int \<Rightarrow> int \<Rightarrow> 'a Pt \<times> float3 list \<times> int list \<Rightarrow> error + 'a Pt \<times> float3 list \<times> int list" where
  "lattice_k_loop X old_v pw_int lat i Xi k k_end st =
     (if k \<le> k_end then
        (if k < 0 \<or> k \<ge> int (length (d_cell_id lat)) then Inl OutOfBounds
         else
           (case st of (F, sum_v, nNBs) \<Rightarrow>
              let Xj = X ! (d_cell_id lat ! nat k);
                  r = Xi - Xj;
                  dist = norm3df (Pt_x r) (Pt_y r) (Pt_z r)
              in if dist < CUBE_SIZE then
                   lattice_k_loop X old_v pw_int lat i Xi (k + 1) k_end
                     (F + pw_int Xi r dist (d_cell_id lat ! i) (d_cell_id lat ! nat k),
                      sum_v[d_cell_id lat ! i :=
                              sum_v ! (d_cell_id lat ! i) + old_v ! (d_cell_id lat ! nat k)],
                      nNBs[d_cell_id lat ! i := nNBs ! (d_cell_id lat ! i) + 1])
                 else lattice_k_loop X old_v pw_int lat i Xi (k + 1) k_end st))
      else Inr st)"
  by pat_completeness auto
termination
  by (relation "measure (\<lambda>(X, old_v, pw_int, lat, i, Xi, k, k_end, st). nat (k_end + 1 - k))") auto

text \<open>The loop over the 27 cubes. A read of \<open>d_cube_start\<close> or \<open>d_cube_end\<close> outside the
  arrays is a fault.\<close>

function lattice_j_loop ::
  "'a::real_vector Pt list \<Rightarrow> float3 list \<Rightarrow> 'a Pairwise_interaction \<Rightarrow> Lattice \<Rightarrow> nat \<Rightarrow> 'a Pt \<Rightarrow>
   nat \<Rightarrow> 'a Pt \<times> float3 list \<times> int list \<Rightarrow> error + 'a Pt \<times> float3 list \<times> int list" where
  "lattice_j_loop X old_v pw_int lat i Xi j st =
     (if j < 27 then
        (let cube = d_cube_id lat ! i + h_moore_nhood ! j
         in if cube < 0 \<or> cube \<ge> N_CUBES then Inl OutOfBounds
            else
              (case lattice_k_loop X old_v pw_int lat i Xi
                      (d_cube_start lat ! nat cube) (d_cube_end lat ! nat cube) st of
                 Inl e \<Rightarrow> Inl e
               | Inr st' \<Rightarrow> lattice_j_loop X old_v pw_int lat i Xi (j + 1) st'))
      else Inr st)"
  by pat_completeness auto
termination
  by (relation "measure (\<lambda>(X, old_v, pw_int, lat, i, Xi, j, st). 27 - j)") auto

definition compute_lattice_pwints_thread ::
  "nat \<Rightarrow> 'a::real_vector Pt list \<Rightarrow> float3 list \<Rightarrow> 'a Pairwise_interaction \<Rightarrow> Lattice \<Rightarrow> nat \<Rightarrow>
   'a Pt list \<times> float3 list \<times> int list \<Rightarrow> error + 'a Pt list \<times> float3 list \<times> int list" where
  "compute_lattice_pwints_thread n_cells X old_v pw_int lat i s =
     (if i \<ge> n_cells then Inr s
      else
        (case s of (dX, sum_v, nNBs) \<Rightarrow>
           (case lattice_j_loop X old_v pw_int lat i (X ! (d_cell_id lat ! i)) 0 (0, sum_v, nNBs) of
              Inl e \<Rightarrow> Inl e
            | Inr (F, sum_v', nNBs') \<Rightarrow> Inr (dX[d_cell_id lat ! i := F], sum_v', nNBs'))))"

definition compute_lattice_pwints ::
  "nat \<Rightarrow> 'a::real_vector Pairwise_interaction \<Rightarrow> 'a Pt list \<Rightarrow> 'a Pt list \<Rightarrow> float3 list \<Rightarrow>
   float3 list \<Rightarrow> int list \<Rightarrow> Lattice \<Rightarrow> error + 'a Pt list \<times> float3 list \<times> int list" where
  "compute_lattice_pwints n_cells pw_int X dX old_v sum_v nNBs lat =
     launch_err (compute_lattice_pwints_thread n_cells X old_v pw_int lat)
       [0..<((n_cells + TILE_SIZE - 1) div TILE_SIZE) * TILE_SIZE] (dX, sum_v, nNBs)"


section \<open>Notions used to state the properties\<close>

text \<open>
  What \<open>euler_step\<close> and \<open>heun_step\<close> make of one derivative: the positional components of
  the mean are subtracted, the further fields are left as they are.
\<close>

definition drift_removed :: "'a Pt \<Rightarrow> 'a Pt \<Rightarrow> 'a Pt" where
  "drift_removed a mean = Pt (Pt_x a - Pt_x mean) (Pt_y a - Pt_y mean) (Pt_z a - Pt_z mean) (Pt_aux a)"

text \<open>What \<open>add_rhs\<close> makes of one derivative, for a count that is not zero.\<close>

definition diffused :: "'a Pt \<Rightarrow> float3 \<Rightarrow> int \<Rightarrow> 'a Pt" where
  "diffused a sv c = Pt (Pt_x a + f3_x sv / real_of_int c) (Pt_y a + f3_y sv / real_of_int c)
                        (Pt_z a + f3_z sv / real_of_int c) (Pt_aux a)"

text \<open>
  The distance of two points as both evaluators compute it, from the positional components
  of the difference, and the indices within distance 1 of entity \<open>i\<close>.
\<close>

definition dist3 :: "'a::real_vector Pt \<Rightarrow> 'a Pt \<Rightarrow> real" where
  "dist3 a b = norm3df (Pt_x (a - b)) (Pt_y (a - b)) (Pt_z (a - b))"

definition neighbours :: "nat \<Rightarrow> 'a::real_vector Pt list \<Rightarrow> nat \<Rightarrow> nat set" where
  "neighbours n X i = {j. j < n \<and> dist3 (X ! i) (X ! j) < 1}"

text \<open>The body of the inner loop of \<open>compute_tiles\<close> for the pair \<open>(i, j)\<close>, reading \<open>d_X[j]\<close>.\<close>

definition tile_pair ::
  "'a::real_vector Pt list \<Rightarrow> float3 list \<Rightarrow> 'a Pairwise_interaction \<Rightarrow> nat \<Rightarrow> nat \<Rightarrow>
   'a Pt \<times> float3 list \<times> int list \<Rightarrow> 'a Pt \<times> float3 list \<times> int list" where
  "tile_pair X old_v pw_int i j st =
     (case st of (Fi, sum_v, nNBs) \<Rightarrow>
        (Fi + pw_int (X ! i) (X ! i - X ! j) (dist3 (X ! i) (X ! j)) i j,
         if dist3 (X ! i) (X ! j) < 1 then sum_v[i := sum_v ! i + old_v ! j] else sum_v,
         if dist3 (X ! i) (X ! j) < 1 then nNBs[i := nNBs ! i + 1] else nNBs))"

section \<open>Example inputs\<close>

definition sol2 :: "real Solution" where
  "sol2 = \<lparr>d_X = [Pt 0 0 0 0, Pt 0 0 0 0], d_dX = [], d_X1 = [], d_dX1 = [], d_old_v = [],
           d_sum_v = [], d_n = 0, d_nNBs = [], h_X = [Pt 1 2 3 4, Pt 5 6 7 8], h_n = 2\<rparr>"

definition pw_example :: "real Pairwise_interaction" where
  "pw_example Xi r d i j = (if i = j then Pt 0 0 0 1 else r)"

definition st2 :: "real N2n_solver" where
  "st2 = \<lparr>d_X = [Pt 0 0 0 0, Pt (3/5) 0 0 0], d_dX = [0, 0], d_X1 = [0, 0], d_dX1 = [0, 0],
          d_old_v = [Float3 1 0 0, Float3 0 0 0], d_sum_v = [0, 0], d_n = 2, d_nNBs = [7, 7]\<rparr>"

definition st1 :: "real N2n_solver" where
  "st1 = \<lparr>d_X = [Pt 0 0 0 0], d_dX = [0], d_X1 = [0], d_dX1 = [0],
          d_old_v = [Float3 0 0 0], d_sum_v = [0], d_n = 1, d_nNBs = [0]\<rparr>"

definition cube_id_of :: "real \<Rightarrow> 'a Pt \<Rightarrow> int" where
  "cube_id_of cube_size p =
     (\<lfloor>Pt_x p / cube_size\<rfloor> + LATTICE_SIZE div 2) +
     (\<lfloor>Pt_y p / cube_size\<rfloor> + LATTICE_SIZE div 2) * LATTICE_SIZE +
     (\<lfloor>Pt_z p / cube_size\<rfloor> + LATTICE_SIZE div 2) * LATTICE_SIZE * LATTICE_SIZE"

definition valid_cube :: "int \<Rightarrow> bool" where
  "valid_cube c = (0 \<le> c \<and> c < N_CUBES)"

definition first_of_cube :: "int list \<Rightarrow> nat \<Rightarrow> bool" where
  "first_of_cube ids k = (k = 0 \<or> ids ! (k - 1) \<noteq> ids ! k)"

definition last_of_cube :: "nat \<Rightarrow> int list \<Rightarrow> nat \<Rightarrow> bool" where
  "last_of_cube n ids k = (k + 1 = n \<or> ids ! (k + 1) \<noteq> ids ! k)"

definition ranges_inv :: "nat \<Rightarrow> int list \<Rightarrow> nat \<Rightarrow> int list \<Rightarrow> int list \<Rightarrow> bool" where
  "ranges_inv n ids m st en =
     (length st = nat N_CUBES \<and> length en = nat N_CUBES \<and>
      (\<forall>k<n. k < m \<longrightarrow> first_of_cube ids k \<longrightarrow> st ! nat (ids ! k) = int k) \<and>
      (\<forall>k<n. k < m \<longrightarrow> last_of_cube n ids k \<longrightarrow> en ! nat (ids ! k) = int k) \<and>
      (\<forall>c. valid_cube c \<longrightarrow> (\<forall>k<n. k < m \<longrightarrow> first_of_cube ids k \<longrightarrow> ids ! k \<noteq> c) \<longrightarrow>
           st ! nat c = - 1) \<and>
      (\<forall>c. valid_cube c \<longrightarrow> (\<forall>k<n. k < m \<longrightarrow> last_of_cube n ids k \<longrightarrow> ids ! k \<noteq> c) \<longrightarrow>
           en ! nat c = - 2))"

definition lattice_ok :: "nat \<Rightarrow> real \<Rightarrow> 'a Pt list \<Rightarrow> Lattice \<Rightarrow> bool" where
  "lattice_ok n cs X lat =
     (n \<le> length (d_cell_id lat) \<and>
      mset (take n (d_cell_id lat)) = mset [0..<n] \<and>
      (\<forall>k<n. d_cube_id lat ! k = cube_id_of cs (X ! (d_cell_id lat ! k)) \<and>
              valid_cube (d_cube_id lat ! k)) \<and>
      (\<forall>c. valid_cube c \<longrightarrow>
         (\<forall>k<n. (d_cube_start lat ! nat c \<le> int k \<and> int k \<le> d_cube_end lat ! nat c) \<longleftrightarrow>
                 d_cube_id lat ! k = c) \<and>
         (\<forall>x. d_cube_start lat ! nat c \<le> x \<and> x \<le> d_cube_end lat ! nat c \<longrightarrow> 0 \<le> x \<and> x < int n) \<and>
         ((\<forall>k<n. d_cube_id lat ! k \<noteq> c) \<longrightarrow>
            d_cube_start lat ! nat c = - 1 \<and> d_cube_end lat ! nat c = - 2)))"

definition lat2 :: Lattice where
  "lat2 = \<lparr>d_cube_id = [0, 0], d_cell_id = [0, 0],
           d_cube_start = replicate (nat N_CUBES) 0, d_cube_end = replicate (nat N_CUBES) 0\<rparr>"

text \<open>
  One step of the innermost loop of \<open>compute_lattice_pwints\<close> for the thread \<open>i\<close> at the
  sorted position \<open>k\<close>, the sorted positions visited by a thread over a list of Moore
  offsets, and the value the kernel leaves in \<open>d_dX\<close>: the sum of the interactions with the
  entities closer than \<open>CUBE_SIZE\<close>. \<open>lattice_inv\<close> is the state of the arrays after the
  threads below \<open>m\<close> have run.
\<close>

definition lattice_pair ::
  "'a::real_vector Pt list \<Rightarrow> float3 list \<Rightarrow> 'a Pairwise_interaction \<Rightarrow> Lattice \<Rightarrow> nat \<Rightarrow> int \<Rightarrow>
   'a Pt \<times> float3 list \<times> int list \<Rightarrow> 'a Pt \<times> float3 list \<times> int list" where
  "lattice_pair X old_v pw_int lat i k st =
     (case st of (F, sum_v, nNBs) \<Rightarrow>
        if dist3 (X ! (d_cell_id lat ! i)) (X ! (d_cell_id lat ! nat k)) < 1 then
          (F + pw_int (X ! (d_cell_id lat ! i)) (X ! (d_cell_id lat ! i) - X ! (d_cell_id lat ! nat k))
                 (dist3 (X ! (d_cell_id lat ! i)) (X ! (d_cell_id lat ! nat k)))
                 (d_cell_id lat ! i) (d_cell_id lat ! nat k),
           sum_v[d_cell_id lat ! i := sum_v ! (d_cell_id lat ! i) + old_v ! (d_cell_id lat ! nat k)],
           nNBs[d_cell_id lat ! i := nNBs ! (d_cell_id lat ! i) + 1])
        else st)"

definition nhood_positions :: "Lattice \<Rightarrow> nat \<Rightarrow> nat list \<Rightarrow> int list" where
  "nhood_positions lat i js =
     concat (map (\<lambda>j. [d_cube_start lat ! nat (d_cube_id lat ! i + h_moore_nhood ! j)..
                        d_cube_end lat ! nat (d_cube_id lat ! i + h_moore_nhood ! j)]) js)"

definition lattice_F :: "nat \<Rightarrow> 'a::real_vector Pairwise_interaction \<Rightarrow> 'a Pt list \<Rightarrow> nat \<Rightarrow> 'a Pt" where
  "lattice_F n pw_int X e =
     (\<Sum>j<n. if dist3 (X ! e) (X ! j) < 1
             then pw_int (X ! e) (X ! e - X ! j) (dist3 (X ! e) (X ! j)) e j else 0)"

definition lattice_inv ::
  "nat \<Rightarrow> 'a::real_vector Pairwise_interaction \<Rightarrow> 'a Pt list \<Rightarrow> float3 list \<Rightarrow> nat list \<Rightarrow>
   'a Pt list \<Rightarrow> float3 list \<Rightarrow> int list \<Rightarrow> nat \<Rightarrow> 'a Pt list \<times> float3 list \<times> int list \<Rightarrow> bool" where
  "lattice_inv n pw_int X old_v cells dX sum_v nNBs m t =
     (case t of (dX', sum_v', nNBs') \<Rightarrow>
        length dX' = length dX \<and> length sum_v' = length sum_v \<and> length nNBs' = length nNBs \<and>
        (\<forall>i<n. i < m \<longrightarrow>
           dX' ! (cells ! i) = lattice_F n pw_int X (cells ! i) \<and>
           sum_v' ! (cells ! i) = sum_v ! (cells ! i) + sum ((!) old_v) (neighbours n X (cells ! i)) \<and>
           nNBs' ! (cells ! i) = nNBs ! (cells ! i) + int (card (neighbours n X (cells ! i)))) \<and>
        (\<forall>i<n. m \<le> i \<longrightarrow>
           sum_v' ! (cells ! i) = sum_v ! (cells ! i) \<and> nNBs' ! (cells ! i) = nNBs ! (cells ! i)))"

text \<open>
  An entity lies in an interior cube when each of its three lattice coordinates is between
  1 and \<open>LATTICE_SIZE - 2\<close>, so that all 27 cubes of its Moore neighbourhood are cubes of
  the lattice. \<open>pw_short\<close> is an example interaction of range below \<open>CUBE_SIZE\<close>.
\<close>

definition interior_cube :: "'a Pt \<Rightarrow> bool" where
  "interior_cube p =
     (1 \<le> \<lfloor>Pt_x p / CUBE_SIZE\<rfloor> + LATTICE_SIZE div 2 \<and>
      \<lfloor>Pt_x p / CUBE_SIZE\<rfloor> + LATTICE_SIZE div 2 \<le> LATTICE_SIZE - 2 \<and>
      1 \<le> \<lfloor>Pt_y p / CUBE_SIZE\<rfloor> + LATTICE_SIZE div 2 \<and>
      \<lfloor>Pt_y p / CUBE_SIZE\<rfloor> + LATTICE_SIZE div 2 \<le> LATTICE_SIZE - 2 \<and>
      1 \<le> \<lfloor>Pt_z p / CUBE_SIZE\<rfloor> + LATTICE_SIZE div 2 \<and>
      \<lfloor>Pt_z p / CUBE_SIZE\<rfloor> + LATTICE_SIZE div 2 \<le> LATTICE_SIZE - 2)"

definition pw_short :: "real Pairwise_interaction" where
  "pw_short Xi r d i j = (if d < 1 then (if i = j then Pt 0 0 0 1 else r) else 0)"

text \<open>
  \<open>counted\<close>: after an evaluation that started from \<open>sum_v\<close> and \<open>nNBs\<close>, entity \<open>i\<close> holds one
  count and the velocity of \<open>j\<close>, next to those of its other neighbours. \<open>self_counted\<close>: from
  zeroed accumulators, entity \<open>i\<close> holds one count and its own velocity, next to those of its
  other neighbours.
\<close>

definition counted ::
  "nat \<Rightarrow> 'a::real_vector Pt list \<Rightarrow> float3 list \<Rightarrow> float3 list \<Rightarrow> int list \<Rightarrow> float3 list \<Rightarrow> int list \<Rightarrow>
   nat \<Rightarrow> nat \<Rightarrow> bool" where
  "counted n X old_v sum_v nNBs sum_v' nNBs' i j =
     (nNBs' ! i = nNBs ! i + 1 + int (card (neighbours n X i - {j})) \<and>
      sum_v' ! i = sum_v ! i + old_v ! j + (\<Sum>k\<in>neighbours n X i - {j}. old_v ! k))"

definition self_counted ::
  "nat \<Rightarrow> 'a::real_vector Pt list \<Rightarrow> float3 list \<Rightarrow> float3 list \<Rightarrow> int list \<Rightarrow> nat \<Rightarrow> bool" where
  "self_counted n X old_v sum_v' nNBs' i =
     (1 \<le> nNBs' ! i \<and>
      nNBs' ! i = 1 + int (card (neighbours n X i - {i})) \<and>
      sum_v' ! i = old_v ! i + (\<Sum>k\<in>neighbours n X i - {i}. old_v ! k))"


text \<open>
  All 27 cubes that \<open>compute_lattice_pwints\<close> visits for an entity at \<open>p\<close> are cubes of the
  lattice: the cube id of \<open>p\<close> plus each Moore offset is at least 0 and below \<open>N_CUBES\<close>.
  This holds for every entity in an interior cube.
\<close>

definition moore_in_lattice :: "'a Pt \<Rightarrow> bool" where
  "moore_in_lattice p = (\<forall>ofs\<in>set h_moore_nhood. valid_cube (cube_id_of CUBE_SIZE p + ofs))"

section \<open>Host and device transfers\<close>

text \<open>
  C8. \<open>copy_to_device\<close> and \<open>copy_to_host\<close> copy the whole buffer of \<open>n_max\<close> points and the
  count to the other mirror. The transfer fails with an assertion failure exactly when the
  count that is transferred exceeds \<open>n_max\<close>; with a count of at most \<open>n_max\<close>, so also with
  exactly \<open>n_max\<close>, it succeeds.
\<close>

theorem copy_full_buffer_and_count:
  assumes "length (h_X s) = nat n_max" and "length (d_X s) = nat n_max"
  shows "(copy_to_device n_max s = Inl AssertionFailed \<longleftrightarrow> h_n s > n_max) \<and>
         (copy_to_host n_max s = Inl AssertionFailed \<longleftrightarrow> d_n s > n_max) \<and>
         (h_n s \<le> n_max \<longrightarrow>
            copy_to_device n_max s = Inr (s\<lparr>d_X := h_X s, d_n := h_n s\<rparr>)) \<and>
         (d_n s \<le> n_max \<longrightarrow>
            copy_to_host n_max s = Inr (s\<lparr>h_X := d_X s, h_n := d_n s\<rparr>))"
  using assms by (simp add: copy_to_device_def copy_to_host_def cudaMemcpy_def Let_def)

theorem copy_full_buffer_and_count_witness:
  "copy_to_device 2 sol2 = Inr (sol2\<lparr>d_X := h_X sol2, d_n := 2\<rparr>) \<and>
   copy_to_host 2 sol2 = Inr (sol2\<lparr>h_X := d_X sol2, h_n := 0\<rparr>) \<and>
   copy_to_device 1 sol2 = Inl AssertionFailed"
  using copy_full_buffer_and_count[of sol2 2]
  by (simp add: sol2_def copy_to_device_def)


section \<open>Kernel launches\<close>

lemma fold_upt_invariant:
  assumes "P 0 s" and "\<And>i t. i < m \<Longrightarrow> P i t \<Longrightarrow> P (Suc i) (f i t)"
  shows "P m (fold f [0..<m] s)"
  using assms by (induction m) auto

lemma launch_err_append:
  "launch_err f (xs @ ys) s = (case launch_err f xs s of Inl e \<Rightarrow> Inl e | Inr t \<Rightarrow> launch_err f ys t)"
  by (induction xs arbitrary: s) (auto split: sum.splits)

lemma launch_err_invariant:
  assumes "P 0 s" and "\<And>i t t'. i < m \<Longrightarrow> P i t \<Longrightarrow> f i t = Inr t' \<Longrightarrow> P (Suc i) t'"
    and "launch_err f [0..<m] s = Inr s'"
  shows "P m s'"
  using assms
proof (induction m arbitrary: s')
  case 0 then show ?case by simp
next
  case (Suc m)
  from Suc.prems(3) obtain t where t: "launch_err f [0..<m] s = Inr t" and ft: "f m t = Inr s'"
    by (auto simp: launch_err_append split: sum.splits)
  have "P m t" using Suc.IH[OF Suc.prems(1) _ t] Suc.prems(2) by simp
  then show ?case using Suc.prems(2)[of m t s'] ft by simp
qed

lemma launch_err_total:
  assumes "P 0 s" and "\<And>i t. i < m \<Longrightarrow> P i t \<Longrightarrow> \<exists>t'. f i t = Inr t' \<and> P (Suc i) t'"
  shows "\<exists>s'. launch_err f [0..<m] s = Inr s' \<and> P m s'"
  using assms
proof (induction m)
  case 0 then show ?case by simp
next
  case (Suc m)
  then obtain t where t: "launch_err f [0..<m] s = Inr t" "P m t" by force
  then obtain t' where "f m t = Inr t'" "P (Suc m) t'" using Suc.prems(2) by blast
  then show ?case using t by (simp add: launch_err_append)
qed

lemma grid_covers: "(n::nat) \<le> ((n + 32 - 1) div 32) * 32"
  by presburger

lemma euler_step_result:
  assumes "n \<le> length dX" "n \<le> length X"
  shows "euler_step n dt X0 mean dX X =
    (map (\<lambda>k. if k < n then drift_removed (dX ! k) mean else dX ! k) [0..<length dX],
     map (\<lambda>k. if k < n then X0 ! k + dt *\<^sub>R drift_removed (dX ! k) mean else X ! k) [0..<length X])"
proof -
  define P where "P = (\<lambda>m (s :: 'a Pt list \<times> 'a Pt list). s =
    (map (\<lambda>k. if k < m \<and> k < n then drift_removed (dX ! k) mean else dX ! k) [0..<length dX],
     map (\<lambda>k. if k < m \<and> k < n then X0 ! k + dt *\<^sub>R drift_removed (dX ! k) mean else X ! k) [0..<length X]))"
  have "P (((n + 32 - 1) div 32) * 32) (fold (euler_step_thread n dt X0 mean) [0..<((n + 32 - 1) div 32) * 32] (dX, X))"
  proof (rule fold_upt_invariant)
    show "P 0 (dX, X)" by (simp add: P_def map_nth)
  next
    fix i t assume "P i t"
    then show "P (Suc i) (euler_step_thread n dt X0 mean i t)"
      using assms unfolding P_def euler_step_thread_def
      by (auto simp: Let_def drift_removed_def nth_list_update less_Suc_eq intro!: nth_equalityI)
  qed
  moreover have "\<And>k. k < n \<Longrightarrow> k < ((n + 32 - 1) div 32) * 32"
    using grid_covers[of n] by simp
  ultimately show ?thesis
    unfolding P_def euler_step_def grid_def by (auto cong: if_cong)
qed

section \<open>The tiled evaluator visits every pair once\<close>

declare tile_k_loop.simps [simp del] tile_loop.simps [simp del]

lemma load_tile_nth:
  "k < TILE_SIZE \<Longrightarrow> ts + k < n \<Longrightarrow> load_tile n X ts shX ! k = X ! (ts + k)"
  by (simp add: load_tile_def)

lemma tile_k_loop_fold:
  assumes "i < n" and sh: "\<And>k'. k' < TILE_SIZE \<Longrightarrow> ts + k' < n \<Longrightarrow> shX ! k' = X ! (ts + k')"
  shows "k \<le> TILE_SIZE \<Longrightarrow> tile_k_loop n X old_v pw i ts shX k st =
         fold (tile_pair X old_v pw i) [min (ts + k) n..<min (ts + TILE_SIZE) n] st"
proof (induction "TILE_SIZE - k" arbitrary: k st)
  case 0
  then have "k = TILE_SIZE" by simp
  then show ?case by (subst tile_k_loop.simps) simp
next
  case (Suc d)
  then have kl: "k < TILE_SIZE" and d: "d = TILE_SIZE - (k + 1)" and kl': "k + 1 \<le> TILE_SIZE"
    by simp_all
  show ?case
  proof (cases "ts + k < n")
    case True
    obtain Fi sum_v nNBs where st: "st = (Fi, sum_v, nNBs)" by (cases st)
    have up: "[min (ts + k) n..<min (ts + TILE_SIZE) n] =
              (ts + k) # [min (ts + (k + 1)) n..<min (ts + TILE_SIZE) n]"
      using True kl by (auto simp: upt_conv_Cons min_def)
    have "tile_k_loop n X old_v pw i ts shX k st =
          tile_k_loop n X old_v pw i ts shX (k + 1) (tile_pair X old_v pw i (ts + k) st)"
      using True kl assms(1) sh[of k]
      by (subst tile_k_loop.simps) (simp add: st tile_pair_def dist3_def Let_def)
    also have "\<dots> = fold (tile_pair X old_v pw i) [min (ts + (k + 1)) n..<min (ts + TILE_SIZE) n]
                    (tile_pair X old_v pw i (ts + k) st)"
      by (rule Suc.hyps(1)[OF d kl'])
    finally show ?thesis by (simp add: up)
  next
    case False
    have "tile_k_loop n X old_v pw i ts shX k st = tile_k_loop n X old_v pw i ts shX (k + 1) st"
      using False kl by (subst tile_k_loop.simps) simp
    also have "\<dots> = fold (tile_pair X old_v pw i) [min (ts + (k + 1)) n..<min (ts + TILE_SIZE) n] st"
      by (rule Suc.hyps(1)[OF d kl'])
    finally show ?thesis using False by (simp add: min_def)
  qed
qed

lemma tile_k_loop_idle:
  assumes "\<not> i < n"
  shows "tile_k_loop n X old_v pw i ts shX k st = st"
proof (induction "TILE_SIZE - k" arbitrary: k)
  case 0
  then show ?case by (subst tile_k_loop.simps) simp
next
  case (Suc d)
  then have "d = TILE_SIZE - (k + 1)" by simp
  from Suc.hyps(1)[OF this] show ?case using assms by (subst tile_k_loop.simps) simp
qed

lemma upt_split: "i \<le> j \<Longrightarrow> j \<le> k \<Longrightarrow> [i..<j] @ [j..<k] = [i..<k]"
  by (metis le_Suc_ex upt_add_eq_append)

lemma tile_loop_fold:
  assumes "i < n"
  shows "tile_loop n X old_v pw i ts shX st = fold (tile_pair X old_v pw i) [ts..<n] st"
proof (induction "n - ts" arbitrary: ts shX st rule: less_induct)
  case less
  show ?case
  proof (cases "ts < n")
    case False
    then show ?thesis by (subst tile_loop.simps) simp
  next
    case True
    let ?sh = "load_tile n X ts shX"
    have k: "tile_k_loop n X old_v pw i ts ?sh 0 st =
             fold (tile_pair X old_v pw i) [ts..<min (ts + TILE_SIZE) n] st"
      using tile_k_loop_fold[OF assms, of ts ?sh X 0 old_v pw st] True
      by (simp add: load_tile_nth)
    have lt: "n - (ts + TILE_SIZE) < n - ts" using True by (simp add: TILE_SIZE_def)
    have "tile_loop n X old_v pw i ts shX st =
          tile_loop n X old_v pw i (ts + TILE_SIZE) ?sh (tile_k_loop n X old_v pw i ts ?sh 0 st)"
      using True by (subst tile_loop.simps) (simp add: Let_def)
    also have "\<dots> = fold (tile_pair X old_v pw i) [ts + TILE_SIZE..<n]
                      (fold (tile_pair X old_v pw i) [ts..<min (ts + TILE_SIZE) n] st)"
      by (simp add: less.hyps[OF lt] k)
    also have "\<dots> = fold (tile_pair X old_v pw i) ([ts..<min (ts + TILE_SIZE) n] @ [ts + TILE_SIZE..<n]) st"
      by simp
    also have "[ts..<min (ts + TILE_SIZE) n] @ [ts + TILE_SIZE..<n] = [ts..<n]"
    proof (cases "ts + TILE_SIZE \<le> n")
      case True
      then show ?thesis by (simp add: min_def upt_split)
    next
      case False
      then show ?thesis by (simp add: min_def)
    qed
    finally show ?thesis .
  qed
qed

lemma tile_loop_idle:
  assumes "\<not> i < n"
  shows "tile_loop n X old_v pw i ts shX st = st"
proof (induction "n - ts" arbitrary: ts shX rule: less_induct)
  case less
  show ?case
  proof (cases "ts < n")
    case False
    then show ?thesis by (subst tile_loop.simps) simp
  next
    case True
    then have lt: "n - (ts + TILE_SIZE) < n - ts" by (simp add: TILE_SIZE_def)
    show ?thesis
      using True by (subst tile_loop.simps) (simp add: Let_def tile_k_loop_idle[OF assms] less.hyps[OF lt])
  qed
qed

lemma tile_pair_fold:
  assumes "i < length sum_v" "i < length nNBs"
  shows "fold (tile_pair X old_v pw i) [0..<m] (F0, sum_v, nNBs) =
     (F0 + (\<Sum>j<m. pw (X ! i) (X ! i - X ! j) (dist3 (X ! i) (X ! j)) i j),
      sum_v[i := sum_v ! i + (\<Sum>j<m. if dist3 (X ! i) (X ! j) < 1 then old_v ! j else 0)],
      nNBs[i := nNBs ! i + (\<Sum>j<m. if dist3 (X ! i) (X ! j) < 1 then 1 else 0)])"
  using assms by (induction m) (simp_all add: tile_pair_def add.assoc)

lemma sum_if_neighbours:
  "(\<Sum>j<n. if dist3 (X ! i) (X ! j) < 1 then g j else 0) = sum g (neighbours n X i)"
proof -
  have "sum g {j \<in> {..<n}. dist3 (X ! i) (X ! j) < 1} =
        (\<Sum>j<n. if dist3 (X ! i) (X ! j) < 1 then g j else 0)"
    by (rule sum.inter_filter) simp
  then show ?thesis by (simp add: neighbours_def)
qed

lemma card_neighbours:
  "(\<Sum>j<n. if dist3 (X ! i) (X ! j) < 1 then 1 else 0) = int (card (neighbours n X i))"
  using sum_if_neighbours[of X i "\<lambda>_. 1::int" n] by simp

lemma finite_neighbours [simp]: "finite (neighbours n X i)"
  by (simp add: neighbours_def)

lemma compute_tiles_thread_result:
  assumes "i < n \<longrightarrow> i < length sum_v \<and> i < length nNBs"
  shows "compute_tiles_thread n X old_v pw shX0 i (dX, sum_v, nNBs) =
     (if i < n then
        (dX[i := \<Sum>j<n. pw (X ! i) (X ! i - X ! j) (dist3 (X ! i) (X ! j)) i j],
         sum_v[i := sum_v ! i + sum ((!) old_v) (neighbours n X i)],
         nNBs[i := nNBs ! i + int (card (neighbours n X i))])
      else (dX, sum_v, nNBs))"
  using assms
  by (simp add: compute_tiles_thread_def tile_loop_fold tile_loop_idle tile_pair_fold
      sum_if_neighbours card_neighbours)

lemma compute_tiles_result:
  assumes "n \<le> length dX" "n \<le> length sum_v" "n \<le> length nNBs"
  shows "compute_tiles n pw shX0 X dX old_v sum_v nNBs =
    (map (\<lambda>k. if k < n then (\<Sum>j<n. pw (X ! k) (X ! k - X ! j) (dist3 (X ! k) (X ! j)) k j)
               else dX ! k) [0..<length dX],
     map (\<lambda>k. if k < n then sum_v ! k + sum ((!) old_v) (neighbours n X k) else sum_v ! k)
       [0..<length sum_v],
     map (\<lambda>k. if k < n then nNBs ! k + int (card (neighbours n X k)) else nNBs ! k)
       [0..<length nNBs])"
proof -
  let ?G = "((n + TILE_SIZE - 1) div TILE_SIZE) * TILE_SIZE"
  define P where "P = (\<lambda>m (s :: 'a Pt list \<times> float3 list \<times> int list). s =
    (map (\<lambda>k. if k < m \<and> k < n then (\<Sum>j<n. pw (X ! k) (X ! k - X ! j) (dist3 (X ! k) (X ! j)) k j)
               else dX ! k) [0..<length dX],
     map (\<lambda>k. if k < m \<and> k < n then sum_v ! k + sum ((!) old_v) (neighbours n X k) else sum_v ! k)
       [0..<length sum_v],
     map (\<lambda>k. if k < m \<and> k < n then nNBs ! k + int (card (neighbours n X k)) else nNBs ! k)
       [0..<length nNBs]))"
  have "P ?G (fold (compute_tiles_thread n X old_v pw shX0) [0..<?G] (dX, sum_v, nNBs))"
  proof (rule fold_upt_invariant)
    show "P 0 (dX, sum_v, nNBs)" by (simp add: P_def map_nth)
  next
    fix i t assume "P i t"
    then show "P (Suc i) (compute_tiles_thread n X old_v pw shX0 i t)"
      using assms unfolding P_def
      by (auto simp: compute_tiles_thread_result nth_list_update less_Suc_eq intro!: nth_equalityI)
  qed
  moreover have "\<And>k. k < n \<Longrightarrow> k < ?G"
    using grid_covers[of n] by (simp add: TILE_SIZE_def)
  ultimately show ?thesis
    unfolding P_def compute_tiles_def by (auto cong: if_cong)
qed

section \<open>The integrator kernels and the step\<close>

lemma heun_step_result:
  assumes "n \<le> length dX1" "n \<le> length X" "n \<le> length old_v"
  shows "heun_step n dt dX mean dX1 X old_v =
    (map (\<lambda>k. if k < n then drift_removed (dX1 ! k) mean else dX1 ! k) [0..<length dX1],
     map (\<lambda>k. if k < n then X ! k + dt *\<^sub>R (0.5 *\<^sub>R (dX ! k + drift_removed (dX1 ! k) mean)) else X ! k)
       [0..<length X],
     map (\<lambda>k. if k < n then Float3 ((Pt_x (dX ! k) + Pt_x (drift_removed (dX1 ! k) mean)) * 0.5)
                                  ((Pt_y (dX ! k) + Pt_y (drift_removed (dX1 ! k) mean)) * 0.5)
                                  ((Pt_z (dX ! k) + Pt_z (drift_removed (dX1 ! k) mean)) * 0.5)
               else old_v ! k) [0..<length old_v])"
proof -
  let ?G = "((n + 32 - 1) div 32) * 32"
  define P where "P = (\<lambda>m (s :: 'a Pt list \<times> 'a Pt list \<times> float3 list). s =
    (map (\<lambda>k. if k < m \<and> k < n then drift_removed (dX1 ! k) mean else dX1 ! k) [0..<length dX1],
     map (\<lambda>k. if k < m \<and> k < n then X ! k + dt *\<^sub>R (0.5 *\<^sub>R (dX ! k + drift_removed (dX1 ! k) mean)) else X ! k)
       [0..<length X],
     map (\<lambda>k. if k < m \<and> k < n then Float3 ((Pt_x (dX ! k) + Pt_x (drift_removed (dX1 ! k) mean)) * 0.5)
                                  ((Pt_y (dX ! k) + Pt_y (drift_removed (dX1 ! k) mean)) * 0.5)
                                  ((Pt_z (dX ! k) + Pt_z (drift_removed (dX1 ! k) mean)) * 0.5)
               else old_v ! k) [0..<length old_v]))"
  have "P ?G (fold (heun_step_thread n dt dX mean) [0..<?G] (dX1, X, old_v))"
  proof (rule fold_upt_invariant)
    show "P 0 (dX1, X, old_v)" by (simp add: P_def map_nth)
  next
    fix i t assume "P i t"
    then show "P (Suc i) (heun_step_thread n dt dX mean i t)"
      using assms unfolding P_def heun_step_thread_def
      by (auto simp: Let_def drift_removed_def nth_list_update less_Suc_eq intro!: nth_equalityI)
  qed
  moreover have "\<And>k. k < n \<Longrightarrow> k < ?G"
    using grid_covers[of n] by simp
  ultimately show ?thesis
    unfolding P_def heun_step_def grid_def by (auto cong: if_cong)
qed

lemma add_rhs_fold:
  assumes "n \<le> length dX"
  shows "launch_err (add_rhs_thread n sum_v nNBs) [0..<m] dX =
     (if \<exists>i<m. i < n \<and> nNBs ! i = 0 then Inl DivisionByZero
      else Inr (map (\<lambda>k. if k < m \<and> k < n then diffused (dX ! k) (sum_v ! k) (nNBs ! k) else dX ! k)
                  [0..<length dX]))"
proof (induction m)
  case 0
  then show ?case by (simp add: map_nth)
next
  case (Suc m)
  show ?case
  proof (cases "\<exists>i<m. i < n \<and> nNBs ! i = 0")
    case True
    then have "\<exists>i<Suc m. i < n \<and> nNBs ! i = 0" using less_Suc_eq by blast
    with True Suc show ?thesis by (simp add: launch_err_append)
  next
    case False
    then have "(\<exists>i<Suc m. i < n \<and> nNBs ! i = 0) \<longleftrightarrow> (m < n \<and> nNBs ! m = 0)"
      using less_Suc_eq by auto
    with False Suc assms show ?thesis
      by (auto simp: launch_err_append add_rhs_thread_def diffused_def nth_list_update less_Suc_eq
          intro!: nth_equalityI)
  qed
qed

lemma add_rhs_result:
  assumes "n \<le> length dX"
  shows "add_rhs n sum_v nNBs dX =
     (if \<exists>i<n. nNBs ! i = 0 then Inl DivisionByZero
      else Inr (map (\<lambda>k. if k < n then diffused (dX ! k) (sum_v ! k) (nNBs ! k) else dX ! k)
                  [0..<length dX]))"
proof -
  have "\<And>k. k < n \<Longrightarrow> k < ((n + 32 - 1) div 32) * 32"
    using grid_covers[of n] by simp
  then have "(\<exists>i<((n + 32 - 1) div 32) * 32. i < n \<and> nNBs ! i = 0) \<longleftrightarrow> (\<exists>i<n. nNBs ! i = 0)"
    by blast
  then show ?thesis
    unfolding add_rhs_def grid_def add_rhs_fold[OF assms]
    using \<open>\<And>k. k < n \<Longrightarrow> k < ((n + 32 - 1) div 32) * 32\<close> by (auto cong: if_cong)
qed

lemma Pt_x_sum_list: "Pt_x (sum_list xs) = sum_list (map Pt_x xs)"
  by (induction xs) (simp_all add: zero_Pt_def plus_Pt_def)

lemma Pt_y_sum_list: "Pt_y (sum_list xs) = sum_list (map Pt_y xs)"
  by (induction xs) (simp_all add: zero_Pt_def plus_Pt_def)

lemma Pt_z_sum_list: "Pt_z (sum_list xs) = sum_list (map Pt_z xs)"
  by (induction xs) (simp_all add: zero_Pt_def plus_Pt_def)

lemma sum_list_take_nth:
  "n \<le> length xs \<Longrightarrow> sum_list (map f (take n xs)) = (\<Sum>k<n. f (xs ! k))"
proof -
  assume n: "n \<le> length xs"
  have "sum_list (map f (take n xs)) = (\<Sum>k<n. map f (take n xs) ! k)"
    using n by (simp add: sum_list_sum_nth atLeast0LessThan)
  also have "\<dots> = (\<Sum>k<n. f (xs ! k))"
    using n by (intro sum.cong) simp_all
  finally show ?thesis .
qed

lemma mean_removed:
  fixes g :: "nat \<Rightarrow> real"
  assumes "1 \<le> n"
  shows "(\<Sum>k<n. g k - (\<Sum>j<n. g j) / real n) = 0"
  using assms by (simp add: sum_subtractf)

lemma drift_removed_sums:
  assumes "1 \<le> n" "n \<le> length dX"
  defines "mean \<equiv> Pt_divide (thrust_reduce dX n) (real n)"
  shows "(\<Sum>k<n. Pt_x (drift_removed (dX ! k) mean)) = 0"
    and "(\<Sum>k<n. Pt_y (drift_removed (dX ! k) mean)) = 0"
    and "(\<Sum>k<n. Pt_z (drift_removed (dX ! k) mean)) = 0"
  using assms(1,2) mean_removed[OF assms(1)]
  by (simp_all add: mean_def drift_removed_def Pt_divide_def thrust_reduce_def
      Pt_x_sum_list Pt_y_sum_list Pt_z_sum_list sum_list_take_nth)

lemma length_thrust_fill [simp]: "length (thrust_fill xs n v) = length xs"
  by (simp add: thrust_fill_def)

lemma nth_thrust_fill:
  "k < length xs \<Longrightarrow> thrust_fill xs n v ! k = (if k < n then v else xs ! k)"
  by (auto simp: thrust_fill_def nth_append)

lemma Pt_sel_zero [simp]: "Pt_x 0 = 0" "Pt_y 0 = 0" "Pt_z 0 = 0" "Pt_aux 0 = 0"
  by (simp_all add: zero_Pt_def)

lemma Pt_sel_plus [simp]:
  "Pt_x (a + b) = Pt_x a + Pt_x b" "Pt_y (a + b) = Pt_y a + Pt_y b"
  "Pt_z (a + b) = Pt_z a + Pt_z b" "Pt_aux (a + b) = Pt_aux a + Pt_aux b"
  by (simp_all add: plus_Pt_def)

lemma Pt_sel_minus [simp]:
  "Pt_x (a - b) = Pt_x a - Pt_x b" "Pt_y (a - b) = Pt_y a - Pt_y b"
  "Pt_z (a - b) = Pt_z a - Pt_z b" "Pt_aux (a - b) = Pt_aux a - Pt_aux b"
  by (simp_all add: minus_Pt_def)

lemma Pt_sel_scaleR [simp]:
  "Pt_x (c *\<^sub>R a) = c * Pt_x a" "Pt_y (c *\<^sub>R a) = c * Pt_y a"
  "Pt_z (c *\<^sub>R a) = c * Pt_z a" "Pt_aux (c *\<^sub>R a) = c *\<^sub>R Pt_aux a"
  by (simp_all add: scaleR_Pt_def)

lemma dist3_self [simp]: "dist3 a a = 0"
  by (simp add: dist3_def norm3df_def)

lemma self_neighbour: "i < n \<Longrightarrow> i \<in> neighbours n X i"
  by (simp add: neighbours_def)

lemma card_neighbours_pos: "i < n \<Longrightarrow> 1 \<le> card (neighbours n X i)"
  using self_neighbour[of i n X] by (simp add: Suc_le_eq card_gt_0_iff) blast

lemma stage_pwints:
  assumes "n \<le> length dX" "n \<le> length sum_v" "n \<le> length nNBs"
    and "compute_tiles n pw shX0 X dX old_v (thrust_fill sum_v n 0) (thrust_fill nNBs n 0) =
         (dXa, sum_va, nNBsa)"
  shows "length dXa = length dX" "length sum_va = length sum_v" "length nNBsa = length nNBs"
    and "\<And>k. k < n \<Longrightarrow> nNBsa ! k = int (card (neighbours n X k))"
    and "\<And>k. k < n \<Longrightarrow> sum_va ! k = sum ((!) old_v) (neighbours n X k)"
    and "\<And>k. k < n \<Longrightarrow> dXa ! k = (\<Sum>j<n. pw (X ! k) (X ! k - X ! j) (dist3 (X ! k) (X ! j)) k j)"
proof -
  have r: "compute_tiles n pw shX0 X dX old_v (thrust_fill sum_v n 0) (thrust_fill nNBs n 0) =
    (map (\<lambda>k. if k < n then (\<Sum>j<n. pw (X ! k) (X ! k - X ! j) (dist3 (X ! k) (X ! j)) k j)
               else dX ! k) [0..<length dX],
     map (\<lambda>k. if k < n then thrust_fill sum_v n 0 ! k + sum ((!) old_v) (neighbours n X k)
               else thrust_fill sum_v n 0 ! k) [0..<length (thrust_fill sum_v n 0)],
     map (\<lambda>k. if k < n then thrust_fill nNBs n 0 ! k + int (card (neighbours n X k))
               else thrust_fill nNBs n 0 ! k) [0..<length (thrust_fill nNBs n 0)])"
    using assms(1-3) by (intro compute_tiles_result) simp_all
  from r assms(4) show "length dXa = length dX" "length sum_va = length sum_v"
    "length nNBsa = length nNBs" by auto
  fix k assume k: "k < n"
  from r assms k show "nNBsa ! k = int (card (neighbours n X k))"
    by (auto simp: nth_thrust_fill)
  from r assms k show "sum_va ! k = sum ((!) old_v) (neighbours n X k)"
    by (auto simp: nth_thrust_fill)
  from r assms k show "dXa ! k = (\<Sum>j<n. pw (X ! k) (X ! k - X ! j) (dist3 (X ! k) (X ! j)) k j)"
    by auto
qed

lemma stage_add_rhs:
  assumes "n \<le> length dXb" and "\<And>k. k < n \<Longrightarrow> nNBsa ! k = int (card (neighbours n X k))"
  shows "add_rhs n sum_va nNBsa dXb =
         Inr (map (\<lambda>k. if k < n then diffused (dXb ! k) (sum_va ! k) (nNBsa ! k) else dXb ! k)
                [0..<length dXb])"
proof -
  have "\<not> (\<exists>i<n. nNBsa ! i = 0)"
    using assms(2) card_neighbours_pos[of _ n X] by fastforce
  then show ?thesis by (simp add: add_rhs_result[OF assms(1)])
qed

lemma take_step_unfold:
  fixes s :: "('a::real_vector, 'm) N2n_solver_scheme"
  assumes dn: "d_n s \<le> n_max"
    and len: "nat (d_n s) \<le> length (d_dX s)" "nat (d_n s) \<le> length (d_dX1 s)"
      "nat (d_n s) \<le> length (d_X s)" "nat (d_n s) \<le> length (d_X1 s)"
      "nat (d_n s) \<le> length (d_old_v s)" "nat (d_n s) \<le> length (d_sum_v s)"
      "nat (d_n s) \<le> length (d_nNBs s)"
    and gf: "\<And>X dX. length (gen_forces X dX) = length dX"
  obtains raw0 raw1 s' where
    "take_step n_max pw shX0 dt gen_forces s = Inr s'"
    "length raw0 = length (d_dX s)" "length raw1 = length (d_dX1 s)"
    "(d_dX s', d_X1 s') = euler_step (nat (d_n s)) dt (d_X s)
        (Pt_divide (thrust_reduce raw0 (nat (d_n s))) (real_of_int (d_n s))) raw0 (d_X1 s)"
    "(d_dX1 s', d_X s', d_old_v s') = heun_step (nat (d_n s)) dt (d_dX s')
        (Pt_divide (thrust_reduce raw1 (nat (d_n s))) (real_of_int (d_n s))) raw1 (d_X s) (d_old_v s)"
    "\<And>k. k < nat (d_n s) \<Longrightarrow> d_nNBs s' ! k = int (card (neighbours (nat (d_n s)) (d_X1 s') k))"
    "\<And>k. k < nat (d_n s) \<Longrightarrow> d_sum_v s' ! k = sum ((!) (d_old_v s)) (neighbours (nat (d_n s)) (d_X1 s') k)"
proof -
  let ?n = "nat (d_n s)"
  obtain dXa sum_va nNBsa where ct0:
    "compute_tiles ?n pw shX0 (d_X s) (d_dX s) (d_old_v s) (thrust_fill (d_sum_v s) ?n 0)
       (thrust_fill (d_nNBs s) ?n 0) = (dXa, sum_va, nNBsa)"
    by (metis prod_cases3)
  note p0 = stage_pwints[OF len(1) len(6) len(7) ct0]
  let ?dXb = "gen_forces (d_X s) dXa"
  define raw0 where "raw0 = map (\<lambda>k. if k < ?n then diffused (?dXb ! k) (sum_va ! k) (nNBsa ! k) else ?dXb ! k)
                [0..<length ?dXb]"
  have ar0: "add_rhs ?n sum_va nNBsa ?dXb = Inr raw0"
    unfolding raw0_def using len(1) p0(1) gf p0(4) by (intro stage_add_rhs) simp_all
  have lraw0: "length raw0 = length (d_dX s)" by (simp add: raw0_def gf p0(1))
  let ?m0 = "Pt_divide (thrust_reduce raw0 ?n) (real_of_int (d_n s))"
  obtain dX' X1' where eu: "euler_step ?n dt (d_X s) ?m0 raw0 (d_X1 s) = (dX', X1')"
    by (metis surj_pair)
  have lX1: "length X1' = length (d_X1 s)" and ldX': "length dX' = length (d_dX s)"
    using eu euler_step_result[of ?n raw0 "d_X1 s" dt "d_X s" ?m0] len lraw0 by auto
  obtain dX1a sum_vb nNBsb where ct1:
    "compute_tiles ?n pw shX0 X1' (d_dX1 s) (d_old_v s) (thrust_fill sum_va ?n 0)
       (thrust_fill nNBsa ?n 0) = (dX1a, sum_vb, nNBsb)"
    by (metis prod_cases3)
  have "?n \<le> length sum_va" "?n \<le> length nNBsa" using p0 len by simp_all
  note p1 = stage_pwints[OF len(2) this ct1]
  let ?dX1b = "gen_forces X1' dX1a"
  define raw1 where "raw1 = map (\<lambda>k. if k < ?n then diffused (?dX1b ! k) (sum_vb ! k) (nNBsb ! k) else ?dX1b ! k)
                [0..<length ?dX1b]"
  have ar1: "add_rhs ?n sum_vb nNBsb ?dX1b = Inr raw1"
    unfolding raw1_def using len(2) p1(1) gf p1(4) by (intro stage_add_rhs) simp_all
  have lraw1: "length raw1 = length (d_dX1 s)" by (simp add: raw1_def gf p1(1))
  let ?m1 = "Pt_divide (thrust_reduce raw1 ?n) (real_of_int (d_n s))"
  obtain dX1' X' old_v' where he: "heun_step ?n dt dX' ?m1 raw1 (d_X s) (d_old_v s) = (dX1', X', old_v')"
    by (metis prod_cases3)
  let ?s' = "s\<lparr>d_X := X', d_dX := dX', d_X1 := X1', d_dX1 := dX1',
               d_old_v := old_v', d_sum_v := sum_vb, d_nNBs := nNBsb\<rparr>"
  have ts: "take_step n_max pw shX0 dt gen_forces s = Inr ?s'"
    using dn by (simp add: take_step_def get_d_n_def Let_def ct0 ar0 eu ct1 ar1 he)
  show thesis
  proof (rule that[of ?s' raw0 raw1])
    show "take_step n_max pw shX0 dt gen_forces s = Inr ?s'" by (rule ts)
    show "length raw0 = length (d_dX s)" by (rule lraw0)
    show "length raw1 = length (d_dX1 s)" by (rule lraw1)
    show "(d_dX ?s', d_X1 ?s') = euler_step ?n dt (d_X s) ?m0 raw0 (d_X1 s)"
      by (simp add: eu)
    show "(d_dX1 ?s', d_X ?s', d_old_v ?s') = heun_step ?n dt (d_dX ?s') ?m1 raw1 (d_X s) (d_old_v s)"
      by (simp add: he)
    show "\<And>k. k < ?n \<Longrightarrow> d_nNBs ?s' ! k = int (card (neighbours ?n (d_X1 ?s') k))"
      using p1(4) by simp
    show "\<And>k. k < ?n \<Longrightarrow> d_sum_v ?s' ! k = sum ((!) (d_old_v s)) (neighbours ?n (d_X1 ?s') k)"
      using p1(5) by simp
  qed
qed


lemma neighbours_Suc:
  "neighbours (Suc n) X i =
     (if dist3 (X ! i) (X ! n) < 1 then insert n (neighbours n X i) else neighbours n X i)"
  by (auto simp: neighbours_def less_Suc_eq)

lemma neighbours_0 [simp]: "neighbours 0 X i = {}"
  by (simp add: neighbours_def)

lemma Pt_aux_sum_list: "Pt_aux (sum_list xs) = sum_list (map Pt_aux xs)"
  by (induction xs) simp_all

section \<open>The tiled evaluator\<close>

text \<open>
  C4. After \<open>compute_tiles\<close> on \<open>n\<close> live entities, for every live \<open>i\<close> the derivative
  \<open>d_dX[i]\<close> is the sum over all live \<open>j\<close>, the self-pair \<open>j = i\<close> included, of
  \<open>pw_int(X[i], X[i] - X[j], dist(i, j), i, j)\<close>; \<open>d_nNBs[i]\<close> has grown by the number of
  \<open>j\<close> with \<open>dist(i, j) < 1\<close> and \<open>d_sum_v[i]\<close> by the sum of \<open>d_old_v[j]\<close> over these \<open>j\<close>,
  among which is \<open>i\<close> itself. The loops of thread \<open>i\<close> run the body once for each
  \<open>j = 0, \<dots>, n - 1\<close>, whatever the shared tile held before.
\<close>

theorem compute_tiles_all_pairs:
  assumes "i < n" "n \<le> length dX" "n \<le> length sum_v" "n \<le> length nNBs"
  shows "(case compute_tiles n pw_int shX0 X dX old_v sum_v nNBs of (dX', sum_v', nNBs') \<Rightarrow>
           dX' ! i = (\<Sum>j<n. pw_int (X ! i) (X ! i - X ! j) (dist3 (X ! i) (X ! j)) i j) \<and>
           nNBs' ! i = nNBs ! i + int (card (neighbours n X i)) \<and>
           sum_v' ! i = sum_v ! i + (\<Sum>j\<in>neighbours n X i. old_v ! j)) \<and>
         i \<in> neighbours n X i \<and>
         tile_loop n X old_v pw_int i 0 (shX0 (i div TILE_SIZE)) st =
           fold (tile_pair X old_v pw_int i) [0..<n] st"
  using assms
  by (simp add: compute_tiles_result self_neighbour tile_loop_fold)

theorem compute_tiles_all_pairs_witness:
  "(case compute_tiles 2 pw_example (\<lambda>b. []) [Pt 0 0 0 0, Pt (3/5) 0 0 0] [0, 0]
           [Float3 1 0 0, Float3 0 2 0] [0, 0] [0, 0] of (dX', sum_v', nNBs') \<Rightarrow>
      dX' ! 0 = Pt (- 3/5) 0 0 1 \<and> nNBs' ! 0 = 2 \<and> sum_v' ! 0 = Float3 1 2 0)"
  using compute_tiles_all_pairs[where i = 0 and n = 2 and dX = "[0, 0]" and sum_v = "[0, 0]"
      and nNBs = "[0, 0]" and pw_int = pw_example and ?shX0.0 = "\<lambda>b. []"
      and X = "[Pt 0 0 0 0, Pt (3/5) 0 0 0]" and old_v = "[Float3 1 0 0, Float3 0 2 0]"
      and st = "(0, [], [])"]
  by (simp add: eval_nat_numeral neighbours_Suc dist3_def norm3df_def pw_example_def
      zero_float3_def plus_float3_def zero_Pt_def plus_Pt_def minus_Pt_def power2_eq_square
      split: prod.splits)

section \<open>The predictor and corrector stages\<close>



lemma take_step_stages:
  fixes s :: "('a::real_vector, 'm) N2n_solver_scheme"
  assumes dn: "d_n s \<le> n_max"
    and len: "nat (d_n s) \<le> length (d_dX s)" "nat (d_n s) \<le> length (d_dX1 s)"
      "nat (d_n s) \<le> length (d_X s)" "nat (d_n s) \<le> length (d_X1 s)"
      "nat (d_n s) \<le> length (d_old_v s)" "nat (d_n s) \<le> length (d_sum_v s)"
      "nat (d_n s) \<le> length (d_nNBs s)"
    and gf: "\<And>X dX. length (gen_forces X dX) = length dX"
  obtains s' dXa sum_va nNBsa raw0 dX1a sum_vb nNBsb raw1 where
    "take_step n_max pw shX0 dt gen_forces s = Inr s'"
    "compute_tiles (nat (d_n s)) pw shX0 (d_X s) (d_dX s) (d_old_v s)
       (thrust_fill (d_sum_v s) (nat (d_n s)) 0) (thrust_fill (d_nNBs s) (nat (d_n s)) 0) =
       (dXa, sum_va, nNBsa)"
    "add_rhs (nat (d_n s)) sum_va nNBsa (gen_forces (d_X s) dXa) = Inr raw0"
    "compute_tiles (nat (d_n s)) pw shX0 (d_X1 s') (d_dX1 s) (d_old_v s)
       (thrust_fill sum_va (nat (d_n s)) 0) (thrust_fill nNBsa (nat (d_n s)) 0) =
       (dX1a, sum_vb, nNBsb)"
    "add_rhs (nat (d_n s)) sum_vb nNBsb (gen_forces (d_X1 s') dX1a) = Inr raw1"
    "length raw0 = length (d_dX s)" "length raw1 = length (d_dX1 s)"
    "\<And>k. k < nat (d_n s) \<Longrightarrow>
       dXa ! k = (\<Sum>j<nat (d_n s). pw (d_X s ! k) (d_X s ! k - d_X s ! j)
                                     (dist3 (d_X s ! k) (d_X s ! j)) k j)"
    "\<And>k. k < nat (d_n s) \<Longrightarrow>
       raw0 ! k = diffused (gen_forces (d_X s) dXa ! k)
                    (sum ((!) (d_old_v s)) (neighbours (nat (d_n s)) (d_X s) k))
                    (int (card (neighbours (nat (d_n s)) (d_X s) k)))"
    "\<And>k. k < nat (d_n s) \<Longrightarrow>
       dX1a ! k = (\<Sum>j<nat (d_n s). pw (d_X1 s' ! k) (d_X1 s' ! k - d_X1 s' ! j)
                                      (dist3 (d_X1 s' ! k) (d_X1 s' ! j)) k j)"
    "\<And>k. k < nat (d_n s) \<Longrightarrow>
       raw1 ! k = diffused (gen_forces (d_X1 s') dX1a ! k)
                    (sum ((!) (d_old_v s)) (neighbours (nat (d_n s)) (d_X1 s') k))
                    (int (card (neighbours (nat (d_n s)) (d_X1 s') k)))"
    "(d_dX s', d_X1 s') = euler_step (nat (d_n s)) dt (d_X s)
        (Pt_divide (thrust_reduce raw0 (nat (d_n s))) (real_of_int (d_n s))) raw0 (d_X1 s)"
    "(d_dX1 s', d_X s', d_old_v s') = heun_step (nat (d_n s)) dt (d_dX s')
        (Pt_divide (thrust_reduce raw1 (nat (d_n s))) (real_of_int (d_n s))) raw1 (d_X s) (d_old_v s)"
proof -
  let ?n = "nat (d_n s)"
  obtain dXa sum_va nNBsa where ct0:
    "compute_tiles ?n pw shX0 (d_X s) (d_dX s) (d_old_v s) (thrust_fill (d_sum_v s) ?n 0)
       (thrust_fill (d_nNBs s) ?n 0) = (dXa, sum_va, nNBsa)"
    by (metis prod_cases3)
  note p0 = stage_pwints[OF len(1) len(6) len(7) ct0]
  let ?dXb = "gen_forces (d_X s) dXa"
  define raw0 where "raw0 = map (\<lambda>k. if k < ?n then diffused (?dXb ! k) (sum_va ! k) (nNBsa ! k) else ?dXb ! k)
                [0..<length ?dXb]"
  have nb: "?n \<le> length ?dXb" using len(1) p0(1) gf by simp
  have ar0: "add_rhs ?n sum_va nNBsa ?dXb = Inr raw0"
    unfolding raw0_def using len(1) p0(1) gf p0(4) by (intro stage_add_rhs) simp_all
  have lraw0: "length raw0 = length (d_dX s)" by (simp add: raw0_def gf p0(1))
  have r0: "raw0 ! k = diffused (?dXb ! k) (sum ((!) (d_old_v s)) (neighbours ?n (d_X s) k))
                    (int (card (neighbours ?n (d_X s) k)))" if "k < ?n" for k
    using that nb by (simp add: raw0_def p0(4)[OF that] p0(5)[OF that])
  let ?m0 = "Pt_divide (thrust_reduce raw0 ?n) (real_of_int (d_n s))"
  obtain dX' X1' where eu: "euler_step ?n dt (d_X s) ?m0 raw0 (d_X1 s) = (dX', X1')"
    by (metis surj_pair)
  obtain dX1a sum_vb nNBsb where ct1:
    "compute_tiles ?n pw shX0 X1' (d_dX1 s) (d_old_v s) (thrust_fill sum_va ?n 0)
       (thrust_fill nNBsa ?n 0) = (dX1a, sum_vb, nNBsb)"
    by (metis prod_cases3)
  have "?n \<le> length sum_va" "?n \<le> length nNBsa" using p0 len by simp_all
  note p1 = stage_pwints[OF len(2) this ct1]
  let ?dX1b = "gen_forces X1' dX1a"
  define raw1 where "raw1 = map (\<lambda>k. if k < ?n then diffused (?dX1b ! k) (sum_vb ! k) (nNBsb ! k) else ?dX1b ! k)
                [0..<length ?dX1b]"
  have nb1: "?n \<le> length ?dX1b" using len(2) p1(1) gf by simp
  have ar1: "add_rhs ?n sum_vb nNBsb ?dX1b = Inr raw1"
    unfolding raw1_def using len(2) p1(1) gf p1(4) by (intro stage_add_rhs) simp_all
  have lraw1: "length raw1 = length (d_dX1 s)" by (simp add: raw1_def gf p1(1))
  have r1: "raw1 ! k = diffused (?dX1b ! k) (sum ((!) (d_old_v s)) (neighbours ?n X1' k))
                    (int (card (neighbours ?n X1' k)))" if "k < ?n" for k
    using that nb1 by (simp add: raw1_def p1(4)[OF that] p1(5)[OF that])
  let ?m1 = "Pt_divide (thrust_reduce raw1 ?n) (real_of_int (d_n s))"
  obtain dX1' X' old_v' where he: "heun_step ?n dt dX' ?m1 raw1 (d_X s) (d_old_v s) = (dX1', X', old_v')"
    by (metis prod_cases3)
  let ?s' = "s\<lparr>d_X := X', d_dX := dX', d_X1 := X1', d_dX1 := dX1',
               d_old_v := old_v', d_sum_v := sum_vb, d_nNBs := nNBsb\<rparr>"
  have ts: "take_step n_max pw shX0 dt gen_forces s = Inr ?s'"
    using dn by (simp add: take_step_def get_d_n_def Let_def ct0 ar0 eu ct1 ar1 he)
  show thesis
  proof (rule that[of ?s' dXa sum_va nNBsa raw0 dX1a sum_vb nNBsb raw1])
    show "take_step n_max pw shX0 dt gen_forces s = Inr ?s'" by (rule ts)
    show "compute_tiles ?n pw shX0 (d_X s) (d_dX s) (d_old_v s) (thrust_fill (d_sum_v s) ?n 0)
       (thrust_fill (d_nNBs s) ?n 0) = (dXa, sum_va, nNBsa)" by (rule ct0)
    show "add_rhs ?n sum_va nNBsa (gen_forces (d_X s) dXa) = Inr raw0" by (rule ar0)
    show "compute_tiles ?n pw shX0 (d_X1 ?s') (d_dX1 s) (d_old_v s)
       (thrust_fill sum_va ?n 0) (thrust_fill nNBsa ?n 0) = (dX1a, sum_vb, nNBsb)"
      using ct1 by simp
    show "add_rhs ?n sum_vb nNBsb (gen_forces (d_X1 ?s') dX1a) = Inr raw1" using ar1 by simp
    show "length raw0 = length (d_dX s)" by (rule lraw0)
    show "length raw1 = length (d_dX1 s)" by (rule lraw1)
    show "\<And>k. k < ?n \<Longrightarrow> dXa ! k = (\<Sum>j<?n. pw (d_X s ! k) (d_X s ! k - d_X s ! j)
                                     (dist3 (d_X s ! k) (d_X s ! j)) k j)" by (rule p0(6))
    show "\<And>k. k < ?n \<Longrightarrow> raw0 ! k = diffused (gen_forces (d_X s) dXa ! k)
                    (sum ((!) (d_old_v s)) (neighbours ?n (d_X s) k))
                    (int (card (neighbours ?n (d_X s) k)))" by (rule r0)
    show "\<And>k. k < ?n \<Longrightarrow> dX1a ! k = (\<Sum>j<?n. pw (d_X1 ?s' ! k) (d_X1 ?s' ! k - d_X1 ?s' ! j)
                                      (dist3 (d_X1 ?s' ! k) (d_X1 ?s' ! j)) k j)"
      using p1(6) by simp
    show "\<And>k. k < ?n \<Longrightarrow> raw1 ! k = diffused (gen_forces (d_X1 ?s') dX1a ! k)
                    (sum ((!) (d_old_v s)) (neighbours ?n (d_X1 ?s') k))
                    (int (card (neighbours ?n (d_X1 ?s') k)))"
      using r1 by simp
    show "(d_dX ?s', d_X1 ?s') = euler_step ?n dt (d_X s) ?m0 raw0 (d_X1 s)"
      by (simp add: eu)
    show "(d_dX1 ?s', d_X ?s', d_old_v ?s') = heun_step ?n dt (d_dX ?s') ?m1 raw1 (d_X s) (d_old_v s)"
      by (simp add: he)
  qed
qed

text \<open>
  C5. A step with a count of at most \<open>n_max\<close> returns, and its corrector updates the state
  of every live entity in place, from its value before the step, by
  \<open>dt * 0.5 * (dX0' + dX1')\<close>. Here \<open>dX0'\<close> is the predictor derivative: the result of
  \<open>compute_tiles\<close> on the state before the step, then \<open>gen_forces\<close>, then \<open>add_rhs\<close> (\<open>raw0\<close>),
  with the positional components of its mean over the live entities subtracted; it is what
  the step leaves in \<open>d_dX\<close>, and the predicted state is \<open>d_X1 = d_X + dt * dX0'\<close>. \<open>dX1'\<close> is
  the corrector derivative: the same evaluation on the predicted state \<open>d_X1\<close> (\<open>raw1\<close>), with
  the positional components of its own mean subtracted; it is what the step leaves in
  \<open>d_dX1\<close>. The positional components of \<open>0.5 * (dX0' + dX1')\<close> are stored in \<open>d_old_v[i]\<close>.
\<close>

theorem take_step_corrector_update:
  fixes s :: "('a::real_vector, 'm) N2n_solver_scheme"
  assumes "d_n s \<le> n_max"
    and "nat (d_n s) \<le> length (d_dX s)" and "nat (d_n s) \<le> length (d_dX1 s)"
    and "nat (d_n s) \<le> length (d_X s)" and "nat (d_n s) \<le> length (d_X1 s)"
    and "nat (d_n s) \<le> length (d_old_v s)" and "nat (d_n s) \<le> length (d_sum_v s)"
    and "nat (d_n s) \<le> length (d_nNBs s)"
    and "\<And>X dX. length (gen_forces X dX) = length dX"
  shows "\<exists>s' dXa sum_va nNBsa raw0 dX1a sum_vb nNBsb raw1.
           take_step n_max pw_int shX0 dt gen_forces s = Inr s' \<and>
           compute_tiles (nat (d_n s)) pw_int shX0 (d_X s) (d_dX s) (d_old_v s)
              (thrust_fill (d_sum_v s) (nat (d_n s)) 0) (thrust_fill (d_nNBs s) (nat (d_n s)) 0) =
              (dXa, sum_va, nNBsa) \<and>
           add_rhs (nat (d_n s)) sum_va nNBsa (gen_forces (d_X s) dXa) = Inr raw0 \<and>
           compute_tiles (nat (d_n s)) pw_int shX0 (d_X1 s') (d_dX1 s) (d_old_v s)
              (thrust_fill sum_va (nat (d_n s)) 0) (thrust_fill nNBsa (nat (d_n s)) 0) =
              (dX1a, sum_vb, nNBsb) \<and>
           add_rhs (nat (d_n s)) sum_vb nNBsb (gen_forces (d_X1 s') dX1a) = Inr raw1 \<and>
           length raw0 = length (d_dX s) \<and> length raw1 = length (d_dX1 s) \<and>
           (\<forall>k<nat (d_n s).
              dXa ! k = (\<Sum>j<nat (d_n s). pw_int (d_X s ! k) (d_X s ! k - d_X s ! j)
                                            (dist3 (d_X s ! k) (d_X s ! j)) k j) \<and>
              raw0 ! k = diffused (gen_forces (d_X s) dXa ! k)
                           (\<Sum>j\<in>neighbours (nat (d_n s)) (d_X s) k. d_old_v s ! j)
                           (int (card (neighbours (nat (d_n s)) (d_X s) k))) \<and>
              d_dX s' ! k = drift_removed (raw0 ! k)
                 (Pt_divide (thrust_reduce raw0 (nat (d_n s))) (real_of_int (d_n s))) \<and>
              d_X1 s' ! k = d_X s ! k + dt *\<^sub>R d_dX s' ! k \<and>
              dX1a ! k = (\<Sum>j<nat (d_n s). pw_int (d_X1 s' ! k) (d_X1 s' ! k - d_X1 s' ! j)
                                             (dist3 (d_X1 s' ! k) (d_X1 s' ! j)) k j) \<and>
              raw1 ! k = diffused (gen_forces (d_X1 s') dX1a ! k)
                           (\<Sum>j\<in>neighbours (nat (d_n s)) (d_X1 s') k. d_old_v s ! j)
                           (int (card (neighbours (nat (d_n s)) (d_X1 s') k))) \<and>
              d_dX1 s' ! k = drift_removed (raw1 ! k)
                 (Pt_divide (thrust_reduce raw1 (nat (d_n s))) (real_of_int (d_n s))) \<and>
              d_X s' ! k = d_X s ! k + (dt * 0.5) *\<^sub>R (d_dX s' ! k + d_dX1 s' ! k) \<and>
              d_old_v s' ! k = Float3 ((Pt_x (d_dX s' ! k) + Pt_x (d_dX1 s' ! k)) * 0.5)
                                      ((Pt_y (d_dX s' ! k) + Pt_y (d_dX1 s' ! k)) * 0.5)
                                      ((Pt_z (d_dX s' ! k) + Pt_z (d_dX1 s' ! k)) * 0.5))"
proof -
  let ?n = "nat (d_n s)"
  show ?thesis
  proof (rule take_step_stages[OF assms(1-9), where pw = pw_int and ?shX0.0 = shX0 and dt = dt])
    fix s' :: "('a, 'm) N2n_solver_scheme"
    fix dXa raw0 dX1a raw1 :: "'a Pt list" and sum_va sum_vb :: "float3 list"
      and nNBsa nNBsb :: "int list"
    let ?m0 = "Pt_divide (thrust_reduce raw0 ?n) (real_of_int (d_n s))"
    let ?m1 = "Pt_divide (thrust_reduce raw1 ?n) (real_of_int (d_n s))"
    assume ts: "take_step n_max pw_int shX0 dt gen_forces s = Inr s'"
      and ct0: "compute_tiles ?n pw_int shX0 (d_X s) (d_dX s) (d_old_v s)
         (thrust_fill (d_sum_v s) ?n 0) (thrust_fill (d_nNBs s) ?n 0) = (dXa, sum_va, nNBsa)"
      and ar0: "add_rhs ?n sum_va nNBsa (gen_forces (d_X s) dXa) = Inr raw0"
      and ct1: "compute_tiles ?n pw_int shX0 (d_X1 s') (d_dX1 s) (d_old_v s)
         (thrust_fill sum_va ?n 0) (thrust_fill nNBsa ?n 0) = (dX1a, sum_vb, nNBsb)"
      and ar1: "add_rhs ?n sum_vb nNBsb (gen_forces (d_X1 s') dX1a) = Inr raw1"
      and l0: "length raw0 = length (d_dX s)" and l1: "length raw1 = length (d_dX1 s)"
      and a: "\<And>k. k < ?n \<Longrightarrow>
         dXa ! k = (\<Sum>j<?n. pw_int (d_X s ! k) (d_X s ! k - d_X s ! j)
                                     (dist3 (d_X s ! k) (d_X s ! j)) k j)"
      and r0: "\<And>k. k < ?n \<Longrightarrow>
         raw0 ! k = diffused (gen_forces (d_X s) dXa ! k)
                    (sum ((!) (d_old_v s)) (neighbours ?n (d_X s) k))
                    (int (card (neighbours ?n (d_X s) k)))"
      and b: "\<And>k. k < ?n \<Longrightarrow>
         dX1a ! k = (\<Sum>j<?n. pw_int (d_X1 s' ! k) (d_X1 s' ! k - d_X1 s' ! j)
                                      (dist3 (d_X1 s' ! k) (d_X1 s' ! j)) k j)"
      and r1: "\<And>k. k < ?n \<Longrightarrow>
         raw1 ! k = diffused (gen_forces (d_X1 s') dX1a ! k)
                    (sum ((!) (d_old_v s)) (neighbours ?n (d_X1 s') k))
                    (int (card (neighbours ?n (d_X1 s') k)))"
      and eu: "(d_dX s', d_X1 s') = euler_step ?n dt (d_X s) ?m0 raw0 (d_X1 s)"
      and he: "(d_dX1 s', d_X s', d_old_v s') = heun_step ?n dt (d_dX s') ?m1 raw1 (d_X s) (d_old_v s)"
    have n0: "?n \<le> length raw0" and n1: "?n \<le> length raw1" using assms l0 l1 by simp_all
    have dX: "\<And>k. k < ?n \<Longrightarrow> d_dX s' ! k = drift_removed (raw0 ! k) ?m0"
      and X1: "\<And>k. k < ?n \<Longrightarrow> d_X1 s' ! k = d_X s ! k + dt *\<^sub>R drift_removed (raw0 ! k) ?m0"
      using eu n0 assms(5) by (simp_all add: euler_step_result[OF n0 assms(5)])
    have dX1: "\<And>k. k < ?n \<Longrightarrow> d_dX1 s' ! k = drift_removed (raw1 ! k) ?m1"
      and X: "\<And>k. k < ?n \<Longrightarrow> d_X s' ! k =
                d_X s ! k + dt *\<^sub>R (0.5 *\<^sub>R (d_dX s' ! k + drift_removed (raw1 ! k) ?m1))"
      and ov: "\<And>k. k < ?n \<Longrightarrow> d_old_v s' ! k =
                Float3 ((Pt_x (d_dX s' ! k) + Pt_x (drift_removed (raw1 ! k) ?m1)) * 0.5)
                       ((Pt_y (d_dX s' ! k) + Pt_y (drift_removed (raw1 ! k) ?m1)) * 0.5)
                       ((Pt_z (d_dX s' ! k) + Pt_z (drift_removed (raw1 ! k) ?m1)) * 0.5)"
      using he n1 assms(4,6) by (simp_all add: heun_step_result[OF n1 assms(4,6)])
    have all: "\<forall>k<?n.
              dXa ! k = (\<Sum>j<?n. pw_int (d_X s ! k) (d_X s ! k - d_X s ! j)
                                            (dist3 (d_X s ! k) (d_X s ! j)) k j) \<and>
              raw0 ! k = diffused (gen_forces (d_X s) dXa ! k)
                           (\<Sum>j\<in>neighbours ?n (d_X s) k. d_old_v s ! j)
                           (int (card (neighbours ?n (d_X s) k))) \<and>
              d_dX s' ! k = drift_removed (raw0 ! k) ?m0 \<and>
              d_X1 s' ! k = d_X s ! k + dt *\<^sub>R d_dX s' ! k \<and>
              dX1a ! k = (\<Sum>j<?n. pw_int (d_X1 s' ! k) (d_X1 s' ! k - d_X1 s' ! j)
                                             (dist3 (d_X1 s' ! k) (d_X1 s' ! j)) k j) \<and>
              raw1 ! k = diffused (gen_forces (d_X1 s') dX1a ! k)
                           (\<Sum>j\<in>neighbours ?n (d_X1 s') k. d_old_v s ! j)
                           (int (card (neighbours ?n (d_X1 s') k))) \<and>
              d_dX1 s' ! k = drift_removed (raw1 ! k) ?m1 \<and>
              d_X s' ! k = d_X s ! k + (dt * 0.5) *\<^sub>R (d_dX s' ! k + d_dX1 s' ! k) \<and>
              d_old_v s' ! k = Float3 ((Pt_x (d_dX s' ! k) + Pt_x (d_dX1 s' ! k)) * 0.5)
                                      ((Pt_y (d_dX s' ! k) + Pt_y (d_dX1 s' ! k)) * 0.5)
                                      ((Pt_z (d_dX s' ! k) + Pt_z (d_dX1 s' ! k)) * 0.5)"
    proof (intro allI impI)
      fix k assume k: "k < ?n"
      show "dXa ! k = (\<Sum>j<?n. pw_int (d_X s ! k) (d_X s ! k - d_X s ! j)
                                            (dist3 (d_X s ! k) (d_X s ! j)) k j) \<and>
              raw0 ! k = diffused (gen_forces (d_X s) dXa ! k)
                           (\<Sum>j\<in>neighbours ?n (d_X s) k. d_old_v s ! j)
                           (int (card (neighbours ?n (d_X s) k))) \<and>
              d_dX s' ! k = drift_removed (raw0 ! k) ?m0 \<and>
              d_X1 s' ! k = d_X s ! k + dt *\<^sub>R d_dX s' ! k \<and>
              dX1a ! k = (\<Sum>j<?n. pw_int (d_X1 s' ! k) (d_X1 s' ! k - d_X1 s' ! j)
                                             (dist3 (d_X1 s' ! k) (d_X1 s' ! j)) k j) \<and>
              raw1 ! k = diffused (gen_forces (d_X1 s') dX1a ! k)
                           (\<Sum>j\<in>neighbours ?n (d_X1 s') k. d_old_v s ! j)
                           (int (card (neighbours ?n (d_X1 s') k))) \<and>
              d_dX1 s' ! k = drift_removed (raw1 ! k) ?m1 \<and>
              d_X s' ! k = d_X s ! k + (dt * 0.5) *\<^sub>R (d_dX s' ! k + d_dX1 s' ! k) \<and>
              d_old_v s' ! k = Float3 ((Pt_x (d_dX s' ! k) + Pt_x (d_dX1 s' ! k)) * 0.5)
                                      ((Pt_y (d_dX s' ! k) + Pt_y (d_dX1 s' ! k)) * 0.5)
                                      ((Pt_z (d_dX s' ! k) + Pt_z (d_dX1 s' ! k)) * 0.5)"
        using a[OF k] r0[OF k] b[OF k] r1[OF k] dX[OF k] X1[OF k] dX1[OF k] X[OF k] ov[OF k]
        by simp
    qed
    show ?thesis
      by (rule exI[of _ s'], rule exI[of _ dXa], rule exI[of _ sum_va], rule exI[of _ nNBsa],
          rule exI[of _ raw0], rule exI[of _ dX1a], rule exI[of _ sum_vb], rule exI[of _ nNBsb],
          rule exI[of _ raw1])
        (intro conjI ts ct0 ar0 ct1 ar1 l0 l1 all)
  qed
qed

theorem take_step_corrector_update_witness:
  "\<exists>s'. take_step 2 pw_example (\<lambda>b. []) (1/20) (\<lambda>X dX. dX) st2 = Inr s' \<and>
        d_dX s' ! 1 = Pt (3/5) 0 0 1 \<and> d_X1 s' ! 1 = Pt (63/100) 0 0 (1/20) \<and>
        d_dX1 s' ! 1 = Pt (33/50) 0 0 1 \<and>
        d_X s' ! 1 = Pt (1263/2000) 0 0 (1/20) \<and> d_old_v s' ! 1 = Float3 (63/100) 0 0"
proof -
  let ?n = "nat (d_n st2)"
  have n: "?n = 2" by (simp add: st2_def)
  have X: "d_X st2 = [Pt 0 0 0 0, Pt (3/5) 0 0 0]"
    and ov: "d_old_v st2 = [Float3 1 0 0, Float3 0 0 0]" by (simp_all add: st2_def)
  from take_step_corrector_update[where s = st2 and n_max = 2 and gen_forces = "\<lambda>X dX. dX"
      and pw_int = pw_example and ?shX0.0 = "\<lambda>b. []" and dt = "1/20"]
  obtain s' dXa raw0 dX1a raw1 where ts:
      "take_step 2 pw_example (\<lambda>b. []) (1/20) (\<lambda>X dX. dX) st2 = Inr s'"
    and l0: "length raw0 = length (d_dX st2)" and l1: "length raw1 = length (d_dX1 st2)"
    and all: "\<forall>k<?n.
              dXa ! k = (\<Sum>j<?n. pw_example (d_X st2 ! k) (d_X st2 ! k - d_X st2 ! j)
                                            (dist3 (d_X st2 ! k) (d_X st2 ! j)) k j) \<and>
              raw0 ! k = diffused (dXa ! k)
                           (\<Sum>j\<in>neighbours ?n (d_X st2) k. d_old_v st2 ! j)
                           (int (card (neighbours ?n (d_X st2) k))) \<and>
              d_dX s' ! k = drift_removed (raw0 ! k)
                 (Pt_divide (thrust_reduce raw0 ?n) (real_of_int (d_n st2))) \<and>
              d_X1 s' ! k = d_X st2 ! k + (1/20) *\<^sub>R d_dX s' ! k \<and>
              dX1a ! k = (\<Sum>j<?n. pw_example (d_X1 s' ! k) (d_X1 s' ! k - d_X1 s' ! j)
                                             (dist3 (d_X1 s' ! k) (d_X1 s' ! j)) k j) \<and>
              raw1 ! k = diffused (dX1a ! k)
                           (\<Sum>j\<in>neighbours ?n (d_X1 s') k. d_old_v st2 ! j)
                           (int (card (neighbours ?n (d_X1 s') k))) \<and>
              d_dX1 s' ! k = drift_removed (raw1 ! k)
                 (Pt_divide (thrust_reduce raw1 ?n) (real_of_int (d_n st2))) \<and>
              d_X s' ! k = d_X st2 ! k + ((1/20) * 0.5) *\<^sub>R (d_dX s' ! k + d_dX1 s' ! k) \<and>
              d_old_v s' ! k = Float3 ((Pt_x (d_dX s' ! k) + Pt_x (d_dX1 s' ! k)) * 0.5)
                                      ((Pt_y (d_dX s' ! k) + Pt_y (d_dX1 s' ! k)) * 0.5)
                                      ((Pt_z (d_dX s' ! k) + Pt_z (d_dX1 s' ! k)) * 0.5)"
    by (simp add: st2_def) blast
  have k0: "0 < ?n" and k1: "1 < ?n" by (simp_all add: n)
  note A0 = all[rule_format, OF k0] and A1 = all[rule_format, OF k1]
  note B0 = A0[THEN conjunct2] and B1 = A1[THEN conjunct2]
  note C0 = B0[THEN conjunct2] and C1 = B1[THEN conjunct2]
  note D0 = C0[THEN conjunct2] and D1 = C1[THEN conjunct2]
  note E0 = D0[THEN conjunct2] and E1 = D1[THEN conjunct2]
  note F0 = E0[THEN conjunct2] and F1 = E1[THEN conjunct2]
  note G1 = F1[THEN conjunct2]
  note H1 = G1[THEN conjunct2]
  have two: "{..<2::nat} = {0, 1}" by auto
  have N: "neighbours 2 [Pt 0 0 0 (0::real), Pt (3/5) 0 0 0] k = {0, 1}" if "k < 2" for k
    using that by (auto simp: neighbours_def dist3_def norm3df_def less_2_cases_iff)
  have a0: "dXa ! 0 = Pt (- 3/5) 0 0 1"
    using A0[THEN conjunct1] by (simp add: n X two pw_example_def plus_Pt_def minus_Pt_def)
  have a1: "dXa ! 1 = Pt (3/5) 0 0 1"
    using A1[THEN conjunct1] by (simp add: n X two pw_example_def plus_Pt_def minus_Pt_def)
  note a1S = a1[unfolded One_nat_def]
  have r0: "raw0 ! 0 = Pt (- 1/10) 0 0 1"
    using B0[THEN conjunct1]
    by (simp add: n X ov N a0 diffused_def plus_float3_def zero_float3_def)
  have r1: "raw0 ! 1 = Pt (11/10) 0 0 1"
    using B1[THEN conjunct1]
    by (simp add: n X ov N a1 a1S diffused_def plus_float3_def zero_float3_def)
  note r1S = r1[unfolded One_nat_def]
  have red0: "thrust_reduce raw0 2 = raw0 ! 0 + raw0 ! 1"
    using sum_list_take_nth[of 2 raw0 "\<lambda>x. x"] l0 by (simp add: thrust_reduce_def st2_def two)
  have m0: "Pt_divide (thrust_reduce raw0 2) (real_of_int (d_n st2)) = Pt (1/2) 0 0 1"
    by (simp add: red0 r0 r1 r1S Pt_divide_def st2_def plus_Pt_def)
  have d0: "d_dX s' ! 0 = Pt (- 3/5) 0 0 1"
    using C0[THEN conjunct1] by (simp add: n m0 r0 drift_removed_def)
  have d1: "d_dX s' ! 1 = Pt (3/5) 0 0 1"
    using C1[THEN conjunct1] by (simp add: n m0 r1 r1S drift_removed_def)
  note d1S = d1[unfolded One_nat_def]
  have x0: "d_X1 s' ! 0 = Pt (- 3/100) 0 0 (1/20)"
    using D0[THEN conjunct1] by (simp add: X d0 plus_Pt_def scaleR_Pt_def)
  have x1: "d_X1 s' ! 1 = Pt (63/100) 0 0 (1/20)"
    using D1[THEN conjunct1] by (simp add: X d1 d1S plus_Pt_def scaleR_Pt_def)
  note x1S = x1[unfolded One_nat_def]
  have N1: "neighbours 2 (d_X1 s') k = {0, 1}" if "k < 2" for k
    using that by (auto simp: neighbours_def dist3_def norm3df_def less_2_cases_iff x0 x1 x1S)
  have b0: "dX1a ! 0 = Pt (- 33/50) 0 0 1"
    using E0[THEN conjunct1] by (simp add: n two pw_example_def plus_Pt_def minus_Pt_def x0 x1 x1S)
  have b1: "dX1a ! 1 = Pt (33/50) 0 0 1"
    using E1[THEN conjunct1] by (simp add: n two pw_example_def plus_Pt_def minus_Pt_def x0 x1 x1S)
  note b1S = b1[unfolded One_nat_def]
  have s0: "raw1 ! 0 = Pt (- 4/25) 0 0 1"
    using F0[THEN conjunct1]
    by (simp add: n ov N1 b0 diffused_def plus_float3_def zero_float3_def)
  have s1: "raw1 ! 1 = Pt (29/25) 0 0 1"
    using F1[THEN conjunct1]
    by (simp add: n ov N1 b1 b1S diffused_def plus_float3_def zero_float3_def)
  note s1S = s1[unfolded One_nat_def]
  have red1: "thrust_reduce raw1 2 = raw1 ! 0 + raw1 ! 1"
    using sum_list_take_nth[of 2 raw1 "\<lambda>x. x"] l1 by (simp add: thrust_reduce_def st2_def two)
  have m1: "Pt_divide (thrust_reduce raw1 2) (real_of_int (d_n st2)) = Pt (1/2) 0 0 1"
    by (simp add: red1 s0 s1 s1S Pt_divide_def st2_def plus_Pt_def)
  have e1: "d_dX1 s' ! 1 = Pt (33/50) 0 0 1"
    using G1[THEN conjunct1] by (simp add: n m1 s1 s1S drift_removed_def)
  note e1S = e1[unfolded One_nat_def]
  have X1: "d_X s' ! 1 = Pt (1263/2000) 0 0 (1/20)"
    using H1[THEN conjunct1] by (simp add: X d1 d1S e1 e1S plus_Pt_def scaleR_Pt_def)
  have o1: "d_old_v s' ! 1 = Float3 (63/100) 0 0"
    using H1[THEN conjunct2] by (simp add: d1 d1S e1 e1S)
  show ?thesis
    by (rule exI[of _ s']) (intro conjI ts d1 x1 e1 X1 o1)
qed

text \<open>
  C2, as the claim states it, fails: drift removal does not reach every integrated field.
  One entity whose pairwise interaction has a source term in a further field keeps the
  derivative 1 of that field after the predictor stage, so the sum of that field over the
  live entities is not zero.
\<close>

theorem drift_removal_all_fields_counterexample:
  "\<exists>s'. take_step 1 pw_example (\<lambda>b. []) (1/20) (\<lambda>X dX. dX) st1 = Inr s' \<and>
        (\<Sum>k<1. Pt_aux (d_dX s' ! k)) = 1 \<and> (\<Sum>k<1. Pt_aux (d_dX s' ! k)) \<noteq> 0"
  by (simp add: take_step_def get_d_n_def st1_def Let_def compute_tiles_result add_rhs_result
      euler_step_result heun_step_result thrust_fill_def neighbours_Suc pw_example_def
      diffused_def drift_removed_def thrust_reduce_def Pt_divide_def zero_float3_def
      zero_Pt_def plus_Pt_def)

text \<open>
  C2, amended. In each stage the mean of the stage derivative is taken over all fields, but
  \<open>euler_step\<close> and \<open>heun_step\<close> subtract only its \<open>x\<close>, \<open>y\<close> and \<open>z\<close> components. After
  the subtraction the sums of the \<open>x\<close>, \<open>y\<close> and \<open>z\<close> components of the derivative over the
  live entities are zero; every further field of the derivative is as it was.
\<close>

theorem drift_removal_positional_only:
  fixes dX :: "'a::real_vector Pt list"
  assumes "1 \<le> n" and "n \<le> length dX" and "n \<le> length X" and "n \<le> length old_v"
  shows "Pt_aux (Pt_divide (thrust_reduce dX n) (real n)) = (\<Sum>k<n. Pt_aux (dX ! k)) /\<^sub>R real n \<and>
         (case euler_step n dt X0 (Pt_divide (thrust_reduce dX n) (real n)) dX X of (dX', X') \<Rightarrow>
            (\<forall>k<n. dX' ! k = drift_removed (dX ! k) (Pt_divide (thrust_reduce dX n) (real n)) \<and>
                    Pt_aux (dX' ! k) = Pt_aux (dX ! k)) \<and>
            (\<Sum>k<n. Pt_x (dX' ! k)) = 0 \<and> (\<Sum>k<n. Pt_y (dX' ! k)) = 0 \<and>
            (\<Sum>k<n. Pt_z (dX' ! k)) = 0) \<and>
         (case heun_step n dt dX0 (Pt_divide (thrust_reduce dX n) (real n)) dX X old_v of
            (dX', X', old_v') \<Rightarrow>
            (\<forall>k<n. dX' ! k = drift_removed (dX ! k) (Pt_divide (thrust_reduce dX n) (real n)) \<and>
                    Pt_aux (dX' ! k) = Pt_aux (dX ! k)) \<and>
            (\<Sum>k<n. Pt_x (dX' ! k)) = 0 \<and> (\<Sum>k<n. Pt_y (dX' ! k)) = 0 \<and>
            (\<Sum>k<n. Pt_z (dX' ! k)) = 0)"
proof -
  let ?m = "Pt_divide (thrust_reduce dX n) (real n)"
  have aux: "\<And>a m. Pt_aux (drift_removed a m) = Pt_aux a" by (simp add: drift_removed_def)
  have mean: "Pt_aux ?m = (\<Sum>k<n. Pt_aux (dX ! k)) /\<^sub>R real n"
    using assms(2)
    by (simp add: Pt_divide_def thrust_reduce_def Pt_aux_sum_list sum_list_take_nth)
  obtain dXe Xe where eu: "euler_step n dt X0 ?m dX X = (dXe, Xe)" by (metis surj_pair)
  obtain dXh Xh ovh where he: "heun_step n dt dX0 ?m dX X old_v = (dXh, Xh, ovh)"
    by (metis prod_cases3)
  have e: "\<And>k. k < n \<Longrightarrow> dXe ! k = drift_removed (dX ! k) ?m"
    using eu assms(2) by (auto simp: euler_step_result[OF assms(2,3)])
  have h: "\<And>k. k < n \<Longrightarrow> dXh ! k = drift_removed (dX ! k) ?m"
    using he assms(2) by (auto simp: heun_step_result[OF assms(2,3,4)])
  show ?thesis
    using drift_removed_sums[OF assms(1,2)] mean by (simp add: eu he e h aux)
qed

theorem drift_removal_positional_only_witness:
  "(case euler_step 2 (1/20) [0, 0] (Pt_divide (thrust_reduce [Pt 1 2 3 4, Pt 3 0 1 (6::real)] 2) 2)
           [Pt 1 2 3 4, Pt 3 0 1 6] [0, 0] of (dX', X') \<Rightarrow>
      dX' ! 0 = Pt (- 1) 1 1 4 \<and> dX' ! 1 = Pt 1 (- 1) (- 1) 6 \<and>
      Pt_x (dX' ! 0) + Pt_x (dX' ! 1) = 0)"
  using drift_removal_positional_only[where n = 2 and dX = "[Pt 1 2 3 4, Pt 3 0 1 (6::real)]"
      and X = "[0, 0]" and old_v = "[0, 0]" and dt = "1/20" and ?X0.0 = "[0, 0]" and ?dX0.0 = "[]"]
  by (auto simp: eval_nat_numeral drift_removed_def Pt_divide_def thrust_reduce_def
      split: prod.splits)

section \<open>The lattice build\<close>

lemma launch_err_snoc:
  "launch_err f (xs @ [i]) s = (case launch_err f xs s of Inl e \<Rightarrow> Inl e | Inr t \<Rightarrow> f i t)"
  by (simp add: launch_err_append split: sum.splits)

lemma compute_cube_ids_thread_eq:
  "compute_cube_ids_thread n X cs i lat =
     (if i \<ge> n then Inr lat
      else if \<not> valid_cube (cube_id_of cs (X ! i)) then Inl AssertionFailed
      else Inr (lat\<lparr>d_cube_id := (d_cube_id lat)[i := cube_id_of cs (X ! i)],
                     d_cell_id := (d_cell_id lat)[i := i]\<rparr>))"
  by (auto simp: compute_cube_ids_thread_def cube_id_of_def valid_cube_def Let_def)

lemma map_upt_step:
  assumes "m < n" "m < L"
  shows "(map (\<lambda>k. if k < m \<and> k < n then f k else g k) [0..<L])[m := f m] =
         map (\<lambda>k. if k < Suc m \<and> k < n then f k else g k) [0..<L]"
  using assms by (auto simp: nth_list_update less_Suc_eq intro!: nth_equalityI)

lemma map_upt_idle:
  assumes "\<not> m < n"
  shows "map (\<lambda>k. if k < Suc m \<and> k < n then f k else g k) [0..<L] =
         map (\<lambda>k. if k < m \<and> k < n then f k else g k) [0..<L]"
  using assms by auto

lemma compute_cube_ids_fold:
  assumes "n \<le> length (d_cube_id lat)" "n \<le> length (d_cell_id lat)"
  shows "launch_err (compute_cube_ids_thread n X cs) [0..<m] lat =
     (if \<exists>i<m. i < n \<and> \<not> valid_cube (cube_id_of cs (X ! i)) then Inl AssertionFailed
      else Inr (lat\<lparr>d_cube_id := map (\<lambda>k. if k < m \<and> k < n then cube_id_of cs (X ! k)
                                          else d_cube_id lat ! k) [0..<length (d_cube_id lat)],
                     d_cell_id := map (\<lambda>k. if k < m \<and> k < n then k else d_cell_id lat ! k)
                                    [0..<length (d_cell_id lat)]\<rparr>))"
proof (induction m)
  case 0
  then show ?case by (simp add: map_nth)
next
  case (Suc m)
  show ?case
  proof (cases "\<exists>i<m. i < n \<and> \<not> valid_cube (cube_id_of cs (X ! i))")
    case True
    then have "\<exists>i<Suc m. i < n \<and> \<not> valid_cube (cube_id_of cs (X ! i))"
      using less_Suc_eq by blast
    with True Suc show ?thesis by (simp add: launch_err_append)
  next
    case False
    then have ex: "(\<exists>i<Suc m. i < n \<and> \<not> valid_cube (cube_id_of cs (X ! i))) \<longleftrightarrow>
               (m < n \<and> \<not> valid_cube (cube_id_of cs (X ! m)))"
      using less_Suc_eq by auto
    have IH: "launch_err (compute_cube_ids_thread n X cs) [0..<m] lat =
       Inr (lat\<lparr>d_cube_id := map (\<lambda>k. if k < m \<and> k < n then cube_id_of cs (X ! k)
                                          else d_cube_id lat ! k) [0..<length (d_cube_id lat)],
                     d_cell_id := map (\<lambda>k. if k < m \<and> k < n then k else d_cell_id lat ! k)
                                    [0..<length (d_cell_id lat)]\<rparr>)"
      using Suc False by (simp only: if_False)
    have step: "launch_err (compute_cube_ids_thread n X cs) [0..<Suc m] lat =
       compute_cube_ids_thread n X cs m
         (lat\<lparr>d_cube_id := map (\<lambda>k. if k < m \<and> k < n then cube_id_of cs (X ! k)
                                          else d_cube_id lat ! k) [0..<length (d_cube_id lat)],
                     d_cell_id := map (\<lambda>k. if k < m \<and> k < n then k else d_cell_id lat ! k)
                                    [0..<length (d_cell_id lat)]\<rparr>)"
      by (simp add: launch_err_snoc IH)
    show ?thesis
    proof (cases "m < n")
      case True
      then have "m < length (d_cube_id lat)" "m < length (d_cell_id lat)" using assms by simp_all
      then show ?thesis
        using True unfolding ex step
        by (simp add: compute_cube_ids_thread_eq
            map_upt_step[where f = "\<lambda>k. cube_id_of cs (X ! k)"]
            map_upt_step[where f = "\<lambda>k. k"])
    next
      case nm: False
      then show ?thesis
        unfolding ex step
        by (simp add: compute_cube_ids_thread_eq map_upt_idle)
    qed
  qed
qed

lemma compute_cube_ids_result:
  assumes "n \<le> length (d_cube_id lat)" "n \<le> length (d_cell_id lat)"
  shows "compute_cube_ids n X lat cs =
     (if \<exists>i<n. \<not> valid_cube (cube_id_of cs (X ! i)) then Inl AssertionFailed
      else Inr (lat\<lparr>d_cube_id := map (\<lambda>k. cube_id_of cs (X ! k)) [0..<n] @ drop n (d_cube_id lat),
                     d_cell_id := [0..<n] @ drop n (d_cell_id lat)\<rparr>))"
proof -
  let ?G = "((n + 32 - 1) div 32) * 32"
  have G: "\<And>k. k < n \<Longrightarrow> k < ?G" using grid_covers[of n] by simp
  then have ex: "(\<exists>i<?G. i < n \<and> \<not> valid_cube (cube_id_of cs (X ! i))) \<longleftrightarrow>
             (\<exists>i<n. \<not> valid_cube (cube_id_of cs (X ! i)))" by blast
  have a: "map (\<lambda>k. if k < ?G \<and> k < n then cube_id_of cs (X ! k) else d_cube_id lat ! k)
             [0..<length (d_cube_id lat)] =
           map (\<lambda>k. cube_id_of cs (X ! k)) [0..<n] @ drop n (d_cube_id lat)"
    using assms(1) G by (auto simp: nth_append intro!: nth_equalityI)
  have b: "map (\<lambda>k. if k < ?G \<and> k < n then k else d_cell_id lat ! k)
             [0..<length (d_cell_id lat)] = [0..<n] @ drop n (d_cell_id lat)"
    using assms(2) G by (auto simp: nth_append intro!: nth_equalityI)
  show ?thesis
    unfolding compute_cube_ids_def grid_def compute_cube_ids_fold[OF assms] ex a b ..
qed

lemma compute_cube_start_and_end_thread_eq:
  assumes "i < n" "valid_cube (d_cube_id lat ! i)"
  shows "compute_cube_start_and_end_thread n i lat =
    Inr (lat\<lparr>d_cube_start := (if first_of_cube (d_cube_id lat) i
                                then (d_cube_start lat)[nat (d_cube_id lat ! i) := int i]
                                else d_cube_start lat),
              d_cube_end := (if last_of_cube n (d_cube_id lat) i
                              then (d_cube_end lat)[nat (d_cube_id lat ! i) := int i]
                              else d_cube_end lat)\<rparr>)"
proof -
  have a: "(d_cube_id lat ! i \<noteq> (if i > 0 then d_cube_id lat ! (i - 1) else - 1)) =
           first_of_cube (d_cube_id lat) i"
    using assms(2) by (auto simp: first_of_cube_def valid_cube_def)
  have b: "(d_cube_id lat ! i \<noteq> (if int i < int n - 1 then d_cube_id lat ! (i + 1)
                                   else d_cube_id lat ! i + 1)) =
           last_of_cube n (d_cube_id lat) i"
    using assms(1) by (auto simp: last_of_cube_def)
  show ?thesis
    using assms unfolding compute_cube_start_and_end_thread_def Let_def a b
    by (auto simp: valid_cube_def)
qed

lemma sorted_first_distinct:
  assumes srt: "\<And>a b. a \<le> b \<Longrightarrow> b < n \<Longrightarrow> ids ! a \<le> ids ! b"
    and "k < m" "m < n" "first_of_cube ids m"
  shows "ids ! k \<noteq> (ids ! m :: int)"
proof -
  from assms have "m > 0" "ids ! (m - 1) \<noteq> ids ! m" by (auto simp: first_of_cube_def)
  moreover have "ids ! (m - 1) \<le> ids ! m" using srt[of "m - 1" m] assms by simp
  moreover have "ids ! k \<le> ids ! (m - 1)" using srt[of k "m - 1"] assms by simp
  ultimately show ?thesis by linarith
qed

lemma sorted_last_distinct:
  assumes srt: "\<And>a b. a \<le> b \<Longrightarrow> b < n \<Longrightarrow> ids ! a \<le> ids ! b"
    and "k < m" "m < n" "last_of_cube n ids k"
  shows "ids ! k \<noteq> (ids ! m :: int)"
proof -
  from assms have "ids ! (k + 1) \<noteq> ids ! k" by (auto simp: last_of_cube_def)
  moreover have "ids ! k \<le> ids ! (k + 1)" using srt[of k "k + 1"] assms by simp
  moreover have "ids ! (k + 1) \<le> ids ! m" using srt[of "k + 1" m] assms by simp
  ultimately show ?thesis by linarith
qed

lemma ranges_inv_step:
  assumes srt: "\<And>a b. a \<le> b \<Longrightarrow> b < n \<Longrightarrow> ids ! a \<le> ids ! b"
    and val: "\<And>k. k < n \<Longrightarrow> valid_cube (ids ! k)"
    and inv: "ranges_inv n ids m st en" and m: "m < n"
  shows "ranges_inv n ids (Suc m)
           (if first_of_cube ids m then st[nat (ids ! m) := int m] else st)
           (if last_of_cube n ids m then en[nat (ids ! m) := int m] else en)"
proof -
  have vm: "0 \<le> ids ! m" "nat (ids ! m) < nat N_CUBES"
    using val[OF m] by (auto simp: valid_cube_def)
  have ne: "\<And>c. valid_cube c \<Longrightarrow> c \<noteq> ids ! m \<Longrightarrow> nat c \<noteq> nat (ids ! m)"
    using vm by (auto simp: valid_cube_def)
  have nek: "\<And>k. k < n \<Longrightarrow> ids ! k \<noteq> ids ! m \<Longrightarrow> nat (ids ! k) \<noteq> nat (ids ! m)"
    using ne val by blast
  from inv have l: "length st = nat N_CUBES" "length en = nat N_CUBES"
    and s1: "\<And>k. k < n \<Longrightarrow> k < m \<Longrightarrow> first_of_cube ids k \<Longrightarrow> st ! nat (ids ! k) = int k"
    and e1: "\<And>k. k < n \<Longrightarrow> k < m \<Longrightarrow> last_of_cube n ids k \<Longrightarrow> en ! nat (ids ! k) = int k"
    and s0: "\<And>c. valid_cube c \<Longrightarrow> (\<forall>k<n. k < m \<longrightarrow> first_of_cube ids k \<longrightarrow> ids ! k \<noteq> c) \<Longrightarrow>
           st ! nat c = - 1"
    and e0: "\<And>c. valid_cube c \<Longrightarrow> (\<forall>k<n. k < m \<longrightarrow> last_of_cube n ids k \<longrightarrow> ids ! k \<noteq> c) \<Longrightarrow>
           en ! nat c = - 2"
    unfolding ranges_inv_def by blast+
  show ?thesis
    unfolding ranges_inv_def
  proof (intro conjI allI impI)
    show "length (if first_of_cube ids m then st[nat (ids ! m) := int m] else st) = nat N_CUBES"
      using l by simp
    show "length (if last_of_cube n ids m then en[nat (ids ! m) := int m] else en) = nat N_CUBES"
      using l by simp
  next
    fix k assume k: "k < n" "k < Suc m" "first_of_cube ids k"
    show "(if first_of_cube ids m then st[nat (ids ! m) := int m] else st) ! nat (ids ! k) = int k"
    proof (cases "k = m")
      case True
      then show ?thesis using k vm l by simp
    next
      case False
      then have km: "k < m" using k by simp
      show ?thesis
        using s1[OF k(1) km k(3)] nek[OF k(1)] sorted_first_distinct[OF srt km m]
        by (auto simp: nth_list_update)
    qed
  next
    fix k assume k: "k < n" "k < Suc m" "last_of_cube n ids k"
    show "(if last_of_cube n ids m then en[nat (ids ! m) := int m] else en) ! nat (ids ! k) = int k"
    proof (cases "k = m")
      case True
      then show ?thesis using k vm l by simp
    next
      case False
      then have km: "k < m" using k by simp
      show ?thesis
        using e1[OF k(1) km k(3)] nek[OF k(1)] sorted_last_distinct[OF srt km m k(3)]
        by (auto simp: nth_list_update)
    qed
  next
    fix c assume c: "valid_cube c" "\<forall>k<n. k < Suc m \<longrightarrow> first_of_cube ids k \<longrightarrow> ids ! k \<noteq> c"
    then have "\<forall>k<n. k < m \<longrightarrow> first_of_cube ids k \<longrightarrow> ids ! k \<noteq> c" by simp
    from s0[OF c(1) this] c m ne[OF c(1)]
    show "(if first_of_cube ids m then st[nat (ids ! m) := int m] else st) ! nat c = - 1"
      by (auto simp: nth_list_update)
  next
    fix c assume c: "valid_cube c" "\<forall>k<n. k < Suc m \<longrightarrow> last_of_cube n ids k \<longrightarrow> ids ! k \<noteq> c"
    then have "\<forall>k<n. k < m \<longrightarrow> last_of_cube n ids k \<longrightarrow> ids ! k \<noteq> c" by simp
    from e0[OF c(1) this] c m ne[OF c(1)]
    show "(if last_of_cube n ids m then en[nat (ids ! m) := int m] else en) ! nat c = - 2"
      by (auto simp: nth_list_update)
  qed
qed

lemma ranges_inv_idle:
  assumes "ranges_inv n ids m st en" "n \<le> m"
  shows "ranges_inv n ids (Suc m) st en"
  using assms unfolding ranges_inv_def by (auto simp: less_Suc_eq)

lemma ranges_inv_init:
  "ranges_inv n ids 0 (replicate (nat N_CUBES) (- 1)) (replicate (nat N_CUBES) (- 2))"
  unfolding ranges_inv_def by (auto simp: valid_cube_def)

lemma compute_cube_start_and_end_result:
  assumes srt: "\<And>a b. a \<le> b \<Longrightarrow> b < n \<Longrightarrow> d_cube_id lat ! a \<le> d_cube_id lat ! b"
    and val: "\<And>k. k < n \<Longrightarrow> valid_cube (d_cube_id lat ! k)"
    and init: "d_cube_start lat = replicate (nat N_CUBES) (- 1)"
      "d_cube_end lat = replicate (nat N_CUBES) (- 2)"
  shows "\<exists>st en. compute_cube_start_and_end n lat = Inr (lat\<lparr>d_cube_start := st, d_cube_end := en\<rparr>) \<and>
           ranges_inv n (d_cube_id lat) n st en"
proof -
  let ?G = "((n + 32 - 1) div 32) * 32"
  let ?ids = "d_cube_id lat"
  define P where "P = (\<lambda>m t. \<exists>st en. t = lat\<lparr>d_cube_start := st, d_cube_end := en\<rparr> \<and>
                                ranges_inv n ?ids m st en)"
  have "\<exists>s'. launch_err (compute_cube_start_and_end_thread n) [0..<?G] lat = Inr s' \<and> P ?G s'"
  proof (rule launch_err_total)
    show "P 0 lat"
      unfolding P_def using ranges_inv_init[of n ?ids] init
      by (intro exI[of _ "d_cube_start lat"] exI[of _ "d_cube_end lat"]) simp
  next
    fix i t assume "i < ?G" and "P i t"
    then obtain st en where t: "t = lat\<lparr>d_cube_start := st, d_cube_end := en\<rparr>"
      and inv: "ranges_inv n ?ids i st en" unfolding P_def by blast
    show "\<exists>t'. compute_cube_start_and_end_thread n i t = Inr t' \<and> P (Suc i) t'"
    proof (cases "i < n")
      case True
      have "compute_cube_start_and_end_thread n i t =
            Inr (lat\<lparr>d_cube_start := (if first_of_cube ?ids i then st[nat (?ids ! i) := int i] else st),
                      d_cube_end := (if last_of_cube n ?ids i then en[nat (?ids ! i) := int i] else en)\<rparr>)"
        using compute_cube_start_and_end_thread_eq[of i n t] True val[OF True] by (simp add: t)
      moreover have "ranges_inv n ?ids (Suc i)
           (if first_of_cube ?ids i then st[nat (?ids ! i) := int i] else st)
           (if last_of_cube n ?ids i then en[nat (?ids ! i) := int i] else en)"
        by (rule ranges_inv_step[OF srt val inv True])
      ultimately show ?thesis unfolding P_def by blast
    next
      case False
      then have "compute_cube_start_and_end_thread n i t = Inr t"
        by (simp add: compute_cube_start_and_end_thread_def)
      moreover have "ranges_inv n ?ids (Suc i) st en"
        using ranges_inv_idle[OF inv] False by simp
      ultimately show ?thesis unfolding P_def using t by blast
    qed
  qed
  then obtain st en where r: "compute_cube_start_and_end n lat = Inr (lat\<lparr>d_cube_start := st, d_cube_end := en\<rparr>)"
    and inv: "ranges_inv n ?ids ?G st en"
    unfolding P_def compute_cube_start_and_end_def grid_def by blast
  have "ranges_inv n ?ids n st en"
    using inv grid_covers[of n] unfolding ranges_inv_def by auto
  with r show ?thesis by blast
qed

lemma ranges_final:
  fixes ids :: "int list"
  assumes srt: "\<And>a b. a \<le> b \<Longrightarrow> b < n \<Longrightarrow> ids ! a \<le> ids ! b"
    and inv: "ranges_inv n ids n st en" and c: "valid_cube c"
  shows "(\<forall>k<n. (st ! nat c \<le> int k \<and> int k \<le> en ! nat c) \<longleftrightarrow> ids ! k = c) \<and>
         (\<forall>x. st ! nat c \<le> x \<and> x \<le> en ! nat c \<longrightarrow> 0 \<le> x \<and> x < int n) \<and>
         ((\<forall>k<n. ids ! k \<noteq> c) \<longrightarrow> st ! nat c = - 1 \<and> en ! nat c = - 2)"
proof (cases "\<exists>k<n. ids ! k = c")
  case False
  then have "st ! nat c = - 1" "en ! nat c = - 2"
    using inv c unfolding ranges_inv_def by auto
  with False show ?thesis by auto
next
  case True
  then obtain k0 where k0: "k0 < n" "ids ! k0 = c" by blast
  define f where "f = (LEAST k. ids ! k = c)"
  define l where "l = (GREATEST k. k < n \<and> ids ! k = c)"
  have f: "ids ! f = c" "f \<le> k0" "\<And>k. ids ! k = c \<Longrightarrow> f \<le> k"
    unfolding f_def using k0 by (auto intro: LeastI Least_le)
  have fn: "f < n" using f(2) k0(1) by simp
  have l: "l < n \<and> ids ! l = c"
    unfolding l_def
    by (rule GreatestI_nat[where P = "\<lambda>k. k < n \<and> ids ! k = c" and k = k0 and b = n])
      (use k0 in simp_all)
  have lmax: "\<And>k. k < n \<Longrightarrow> ids ! k = c \<Longrightarrow> k \<le> l"
    unfolding l_def
    by (rule Greatest_le_nat[where P = "\<lambda>k. k < n \<and> ids ! k = c" and b = n]) simp_all
  have ff: "first_of_cube ids f"
  proof (cases "f = 0")
    case True then show ?thesis by (simp add: first_of_cube_def)
  next
    case False
    then have "ids ! (f - 1) \<noteq> c" using f(3)[of "f - 1"] by auto
    then show ?thesis using f by (simp add: first_of_cube_def)
  qed
  have ll: "last_of_cube n ids l"
  proof (cases "l + 1 = n")
    case True then show ?thesis by (simp add: last_of_cube_def)
  next
    case False
    then have "l + 1 < n" using l by simp
    then have "ids ! (l + 1) \<noteq> c" using lmax[of "l + 1"] by auto
    then show ?thesis using l by (simp add: last_of_cube_def)
  qed
  from inv have s1: "\<And>k. k < n \<Longrightarrow> first_of_cube ids k \<Longrightarrow> st ! nat (ids ! k) = int k"
    and e1: "\<And>k. k < n \<Longrightarrow> last_of_cube n ids k \<Longrightarrow> en ! nat (ids ! k) = int k"
    unfolding ranges_inv_def by simp_all
  have st: "st ! nat c = int f" using s1[OF fn ff] f(1) by simp
  have en: "en ! nat c = int l" using e1[of l] ll l by simp
  have iff: "(f \<le> k \<and> k \<le> l) \<longleftrightarrow> ids ! k = c" if k: "k < n" for k
  proof
    assume fl: "f \<le> k \<and> k \<le> l"
    have "ids ! f \<le> ids ! k" using srt[of f k] k fl by simp
    moreover have "ids ! k \<le> ids ! l" using srt[of k l] fl l by simp
    ultimately show "ids ! k = c" using f(1) l by simp
  next
    assume "ids ! k = c"
    then show "f \<le> k \<and> k \<le> l" using f(3) lmax k by simp
  qed
  have 1: "\<forall>k<n. (st ! nat c \<le> int k \<and> int k \<le> en ! nat c) \<longleftrightarrow> ids ! k = c"
    using iff by (simp add: st en)
  have 2: "\<forall>x. st ! nat c \<le> x \<and> x \<le> en ! nat c \<longrightarrow> 0 \<le> x \<and> x < int n"
    using l by (simp add: st en)
  have 3: "(\<forall>k<n. ids ! k \<noteq> c) \<longrightarrow> st ! nat c = - 1 \<and> en ! nat c = - 2"
    using k0 by blast
  from 1 2 3 show ?thesis by blast
qed

lemma key_sorter_facts:
  fixes f :: "nat \<Rightarrow> int" and n :: nat
  assumes ks: "key_sorter srt"
  defines "kvs \<equiv> srt (zip (map f [0..<n]) [0..<n])"
  shows "length kvs = n"
    and "sorted (map fst kvs)"
    and "mset (map snd kvs) = mset [0..<n]"
    and "\<And>k. k < n \<Longrightarrow> fst (kvs ! k) = f (snd (kvs ! k)) \<and> snd (kvs ! k) < n"
proof -
  have m: "mset kvs = mset (zip (map f [0..<n]) [0..<n])" and s: "sorted (map fst kvs)"
    using ks unfolding key_sorter_def kvs_def by simp_all
  from m have "size (mset kvs) = size (mset (zip (map f [0..<n]) [0..<n]))" by simp
  then show len: "length kvs = n" by simp
  show "sorted (map fst kvs)" by (rule s)
  have z: "map snd (zip (map f [0..<n]) [0..<n]) = [0..<n]" by simp
  have "mset (map snd kvs) = image_mset snd (mset kvs)" by simp
  also have "\<dots> = mset (map snd (zip (map f [0..<n]) [0..<n]))" by (simp only: m mset_map)
  finally show "mset (map snd kvs) = mset [0..<n]" unfolding z .
  fix k assume k: "k < n"
  then have "kvs ! k \<in> set kvs" using len by simp
  then have "kvs ! k \<in> set (zip (map f [0..<n]) [0..<n])"
    using m by (metis set_mset_mset)
  then obtain j where "j < n" "kvs ! k = (f j, j)"
    by (auto simp: set_zip)
  then show "fst (kvs ! k) = f (snd (kvs ! k)) \<and> snd (kvs ! k) < n" by simp
qed

lemma thrust_fill_all: "length xs = n \<Longrightarrow> thrust_fill xs n v = replicate n v"
  by (simp add: thrust_fill_def)

lemma build_lattice_result:
  assumes ks: "key_sorter srt" and nm: "int n \<le> n_max"
    and len: "n \<le> length (d_cube_id lat0)" "n \<le> length (d_cell_id lat0)"
      "length (d_cube_start lat0) = nat N_CUBES" "length (d_cube_end lat0) = nat N_CUBES"
  shows "((\<exists>i<n. \<not> valid_cube (cube_id_of cs (X ! i))) \<longrightarrow>
            build_lattice n_max srt (int n) X cs lat0 = Inl AssertionFailed) \<and>
         ((\<forall>i<n. valid_cube (cube_id_of cs (X ! i))) \<longrightarrow>
            (\<exists>lat. build_lattice n_max srt (int n) X cs lat0 = Inr lat \<and> lattice_ok n cs X lat))"
proof (intro conjI impI)
  assume "\<exists>i<n. \<not> valid_cube (cube_id_of cs (X ! i))"
  then show "build_lattice n_max srt (int n) X cs lat0 = Inl AssertionFailed"
    using nm by (simp add: build_lattice_def compute_cube_ids_result[OF len(1,2)])
next
  assume val: "\<forall>i<n. valid_cube (cube_id_of cs (X ! i))"
  let ?f = "\<lambda>k. cube_id_of cs (X ! k)"
  define kvs where "kvs = srt (zip (map ?f [0..<n]) [0..<n])"
  note kf = key_sorter_facts[OF ks, where f = ?f and n = n, folded kvs_def]
  define lat4 where "lat4 = lat0\<lparr>d_cube_start := replicate (nat N_CUBES) (- 1),
       d_cube_end := replicate (nat N_CUBES) (- 2),
       d_cube_id := map fst kvs @ drop n (d_cube_id lat0),
       d_cell_id := map snd kvs @ drop n (d_cell_id lat0)\<rparr>"
  have ids: "\<And>k. k < n \<Longrightarrow> d_cube_id lat4 ! k = fst (kvs ! k)"
    and cells: "\<And>k. k < n \<Longrightarrow> d_cell_id lat4 ! k = snd (kvs ! k)"
    using kf(1) by (simp_all add: lat4_def nth_append)
  have cc: "compute_cube_ids n X lat0 cs =
      Inr (lat0\<lparr>d_cube_id := map ?f [0..<n] @ drop n (d_cube_id lat0),
                 d_cell_id := [0..<n] @ drop n (d_cell_id lat0)\<rparr>)"
  proof -
    have "\<not> (\<exists>i<n. \<not> valid_cube (cube_id_of cs (X ! i)))" using val by blast
    then show ?thesis by (subst compute_cube_ids_result[OF len(1,2)]) (rule if_not_P)
  qed
  have bl: "build_lattice n_max srt (int n) X cs lat0 = compute_cube_start_and_end n lat4"
    using nm len
    by (simp add: build_lattice_def cc Let_def
        thrust_sort_by_key_def thrust_fill_all kvs_def lat4_def)
  have srt: "\<And>a b. a \<le> b \<Longrightarrow> b < n \<Longrightarrow> d_cube_id lat4 ! a \<le> d_cube_id lat4 ! b"
  proof -
    fix a b assume ab: "a \<le> b" "b < n"
    then have "map fst kvs ! a \<le> map fst kvs ! b"
      using kf(1,2) by (intro sorted_nth_mono) simp_all
    then show "d_cube_id lat4 ! a \<le> d_cube_id lat4 ! b" using ab kf(1) by (simp add: ids)
  qed
  have v4: "\<And>k. k < n \<Longrightarrow> valid_cube (d_cube_id lat4 ! k)"
    using kf(4) val by (simp add: ids)
  obtain st en where r: "compute_cube_start_and_end n lat4 = Inr (lat4\<lparr>d_cube_start := st, d_cube_end := en\<rparr>)"
    and inv: "ranges_inv n (d_cube_id lat4) n st en"
    using compute_cube_start_and_end_result[OF srt v4, of n] by (auto simp: lat4_def)
  let ?lat = "lat4\<lparr>d_cube_start := st, d_cube_end := en\<rparr>"
  have a: "n \<le> length (d_cell_id ?lat)" using kf(1) by (simp add: lat4_def)
  have b: "mset (take n (d_cell_id ?lat)) = mset [0..<n]" using kf(1,3) by (simp add: lat4_def)
  have c: "\<forall>k<n. d_cube_id ?lat ! k = cube_id_of cs (X ! (d_cell_id ?lat ! k)) \<and>
              valid_cube (d_cube_id ?lat ! k)"
    using kf(4) v4 by (simp add: ids cells)
  have d: "\<forall>c. valid_cube c \<longrightarrow>
         (\<forall>k<n. (d_cube_start ?lat ! nat c \<le> int k \<and> int k \<le> d_cube_end ?lat ! nat c) \<longleftrightarrow>
                 d_cube_id ?lat ! k = c) \<and>
         (\<forall>x. d_cube_start ?lat ! nat c \<le> x \<and> x \<le> d_cube_end ?lat ! nat c \<longrightarrow> 0 \<le> x \<and> x < int n) \<and>
         ((\<forall>k<n. d_cube_id ?lat ! k \<noteq> c) \<longrightarrow>
            d_cube_start ?lat ! nat c = - 1 \<and> d_cube_end ?lat ! nat c = - 2)"
  proof (intro allI impI)
    fix c assume "valid_cube c"
    from ranges_final[OF srt inv this] show "(\<forall>k<n. (d_cube_start ?lat ! nat c \<le> int k \<and> int k \<le> d_cube_end ?lat ! nat c) \<longleftrightarrow>
                 d_cube_id ?lat ! k = c) \<and>
         (\<forall>x. d_cube_start ?lat ! nat c \<le> x \<and> x \<le> d_cube_end ?lat ! nat c \<longrightarrow> 0 \<le> x \<and> x < int n) \<and>
         ((\<forall>k<n. d_cube_id ?lat ! k \<noteq> c) \<longrightarrow>
            d_cube_start ?lat ! nat c = - 1 \<and> d_cube_end ?lat ! nat c = - 2)"
      by simp
  qed
  have "lattice_ok n cs X ?lat"
    unfolding lattice_ok_def using a b c d by blast
  with bl r show "\<exists>lat. build_lattice n_max srt (int n) X cs lat0 = Inr lat \<and> lattice_ok n cs X lat"
    by simp
qed

lemma lattice_okD:
  assumes "lattice_ok n cs X lat"
  shows "n \<le> length (d_cell_id lat)"
    and "mset (take n (d_cell_id lat)) = mset [0..<n]"
    and "\<And>k. k < n \<Longrightarrow> d_cube_id lat ! k = cube_id_of cs (X ! (d_cell_id lat ! k))"
    and "\<And>k. k < n \<Longrightarrow> valid_cube (d_cube_id lat ! k)"
    and "\<And>c k. valid_cube c \<Longrightarrow> k < n \<Longrightarrow>
           (d_cube_start lat ! nat c \<le> int k \<and> int k \<le> d_cube_end lat ! nat c) \<longleftrightarrow>
           d_cube_id lat ! k = c"
    and "\<And>c x. valid_cube c \<Longrightarrow> d_cube_start lat ! nat c \<le> x \<Longrightarrow> x \<le> d_cube_end lat ! nat c \<Longrightarrow>
           0 \<le> x \<and> x < int n"
    and "\<And>c. valid_cube c \<Longrightarrow> (\<And>k. k < n \<Longrightarrow> d_cube_id lat ! k \<noteq> c) \<Longrightarrow>
           d_cube_start lat ! nat c = - 1 \<and> d_cube_end lat ! nat c = - 2"
proof -
  from assms have all: "n \<le> length (d_cell_id lat) \<and>
      mset (take n (d_cell_id lat)) = mset [0..<n] \<and>
      (\<forall>k<n. d_cube_id lat ! k = cube_id_of cs (X ! (d_cell_id lat ! k)) \<and>
              valid_cube (d_cube_id lat ! k)) \<and>
      (\<forall>c. valid_cube c \<longrightarrow>
         (\<forall>k<n. (d_cube_start lat ! nat c \<le> int k \<and> int k \<le> d_cube_end lat ! nat c) \<longleftrightarrow>
                 d_cube_id lat ! k = c) \<and>
         (\<forall>x. d_cube_start lat ! nat c \<le> x \<and> x \<le> d_cube_end lat ! nat c \<longrightarrow> 0 \<le> x \<and> x < int n) \<and>
         ((\<forall>k<n. d_cube_id lat ! k \<noteq> c) \<longrightarrow>
            d_cube_start lat ! nat c = - 1 \<and> d_cube_end lat ! nat c = - 2))"
    unfolding lattice_ok_def .
  show "n \<le> length (d_cell_id lat)" by (rule conjunct1[OF all])
  show "mset (take n (d_cell_id lat)) = mset [0..<n]" by (rule conjunct1[OF conjunct2[OF all]])
  note c = conjunct1[OF conjunct2[OF conjunct2[OF all]], rule_format]
  note d = conjunct2[OF conjunct2[OF conjunct2[OF all]], rule_format]
  show "\<And>k. k < n \<Longrightarrow> d_cube_id lat ! k = cube_id_of cs (X ! (d_cell_id lat ! k))"
    using c by (rule conjunct1)
  show "\<And>k. k < n \<Longrightarrow> valid_cube (d_cube_id lat ! k)"
    using c by (rule conjunct2)
  {
    fix c :: int assume v: "valid_cube c"
    note d1 = conjunct1[OF d[OF v], rule_format]
    note d2 = conjunct1[OF conjunct2[OF d[OF v]], rule_format]
    note d3 = conjunct2[OF conjunct2[OF d[OF v]], rule_format]
    {
      fix k assume "k < n"
      then show "(d_cube_start lat ! nat c \<le> int k \<and> int k \<le> d_cube_end lat ! nat c) \<longleftrightarrow>
           d_cube_id lat ! k = c" by (rule d1)
    }
    {
      fix x assume "d_cube_start lat ! nat c \<le> x" "x \<le> d_cube_end lat ! nat c"
      then show "0 \<le> x \<and> x < int n" using d2[of x] by simp
    }
    {
      assume "\<And>k. k < n \<Longrightarrow> d_cube_id lat ! k \<noteq> c"
      then have "\<forall>k<n. d_cube_id lat ! k \<noteq> c" by simp
      then show "d_cube_start lat ! nat c = - 1 \<and> d_cube_end lat ! nat c = - 2"
        using conjunct2[OF conjunct2[OF d[OF v]]] by (rule rev_mp)
    }
  }
qed

lemma key_sorter_sort_key: "key_sorter (sort_key fst)"
  by (simp add: key_sorter_def)

text \<open>
  C6. After \<open>build_lattice\<close> on \<open>n\<close> live entities whose cube ids are all valid (at least 0
  and less than \<open>N_CUBES\<close>), with any sorting routine that sorts by key: the sorted cell
  ids are a permutation of the live entities; position \<open>k\<close> holds the cube id of the entity
  at that position; for every sorted position \<open>k\<close> and every bucket \<open>b\<close>, \<open>k\<close> lies in the
  range from \<open>d_cube_start[b]\<close> to \<open>d_cube_end[b]\<close> exactly when \<open>b\<close> is the cube id at \<open>k\<close>;
  a range holds only sorted positions of live entities; and a bucket with no entity keeps
  \<open>d_cube_start[b] = -1\<close> and \<open>d_cube_end[b] = -2\<close>, a range with no element.
\<close>

theorem build_lattice_partition:
  assumes "key_sorter srt" and "int n \<le> n_max"
    and "n \<le> length (d_cube_id lat0)" and "n \<le> length (d_cell_id lat0)"
    and "length (d_cube_start lat0) = nat N_CUBES" and "length (d_cube_end lat0) = nat N_CUBES"
    and "\<forall>i<n. valid_cube (cube_id_of cube_size (X ! i))"
  shows "\<exists>lat. build_lattice n_max srt (int n) X cube_size lat0 = Inr lat \<and>
           mset (take n (d_cell_id lat)) = mset [0..<n] \<and>
           (\<forall>k<n. d_cube_id lat ! k = cube_id_of cube_size (X ! (d_cell_id lat ! k))) \<and>
           (\<forall>k<n. \<forall>b. valid_cube b \<longrightarrow>
              ((d_cube_start lat ! nat b \<le> int k \<and> int k \<le> d_cube_end lat ! nat b) \<longleftrightarrow>
               b = d_cube_id lat ! k)) \<and>
           (\<forall>b. valid_cube b \<longrightarrow>
              (\<forall>x. d_cube_start lat ! nat b \<le> x \<and> x \<le> d_cube_end lat ! nat b \<longrightarrow>
                   0 \<le> x \<and> x < int n)) \<and>
           (\<forall>b. valid_cube b \<longrightarrow> (\<forall>k<n. d_cube_id lat ! k \<noteq> b) \<longrightarrow>
              d_cube_start lat ! nat b = - 1 \<and> d_cube_end lat ! nat b = - 2 \<and>
              [d_cube_start lat ! nat b..d_cube_end lat ! nat b] = [])"
proof -
  obtain lat where b: "build_lattice n_max srt (int n) X cube_size lat0 = Inr lat"
    and ok: "lattice_ok n cube_size X lat"
    using build_lattice_result[OF assms(1-6), of cube_size X] assms(7) by blast
  note D = lattice_okD[OF ok]
  have 1: "mset (take n (d_cell_id lat)) = mset [0..<n]" by (rule D(2))
  have 2: "\<forall>k<n. d_cube_id lat ! k = cube_id_of cube_size (X ! (d_cell_id lat ! k))"
    using D(3) by simp
  have 3: "\<forall>k<n. \<forall>b. valid_cube b \<longrightarrow>
              ((d_cube_start lat ! nat b \<le> int k \<and> int k \<le> d_cube_end lat ! nat b) \<longleftrightarrow>
               b = d_cube_id lat ! k)"
  proof (intro allI impI)
    fix k b assume "k < n" "valid_cube b"
    from D(5)[OF this(2,1)]
    show "(d_cube_start lat ! nat b \<le> int k \<and> int k \<le> d_cube_end lat ! nat b) \<longleftrightarrow>
               b = d_cube_id lat ! k" by (simp add: eq_commute)
  qed
  have 4: "\<forall>b. valid_cube b \<longrightarrow>
              (\<forall>x. d_cube_start lat ! nat b \<le> x \<and> x \<le> d_cube_end lat ! nat b \<longrightarrow>
                   0 \<le> x \<and> x < int n)"
  proof (intro allI impI)
    fix b x assume "valid_cube b" "d_cube_start lat ! nat b \<le> x \<and> x \<le> d_cube_end lat ! nat b"
    then show "0 \<le> x \<and> x < int n" using D(6)[of b x] by simp
  qed
  have 5: "\<forall>b. valid_cube b \<longrightarrow> (\<forall>k<n. d_cube_id lat ! k \<noteq> b) \<longrightarrow>
              d_cube_start lat ! nat b = - 1 \<and> d_cube_end lat ! nat b = - 2 \<and>
              [d_cube_start lat ! nat b..d_cube_end lat ! nat b] = []"
  proof (intro allI impI)
    fix b assume "valid_cube b" "\<forall>k<n. d_cube_id lat ! k \<noteq> b"
    then have "d_cube_start lat ! nat b = - 1 \<and> d_cube_end lat ! nat b = - 2"
      using D(7)[of b] by simp
    then show "d_cube_start lat ! nat b = - 1 \<and> d_cube_end lat ! nat b = - 2 \<and>
              [d_cube_start lat ! nat b..d_cube_end lat ! nat b] = []" by simp
  qed
  show ?thesis
    by (rule exI[of _ lat]) (intro conjI b 1 2 3 4 5)
qed

theorem build_lattice_partition_witness:
  "\<exists>lat. build_lattice 2 (sort_key fst) 2 [Pt (1/2) 0 0 (0::real), Pt (- 1/2) 0 0 0] 1 lat2 = Inr lat \<and>
         mset (take 2 (d_cell_id lat)) = mset [0..<2] \<and>
         d_cube_id lat ! 0 = cube_id_of 1 ([Pt (1/2) 0 0 (0::real), Pt (- 1/2) 0 0 0] ! (d_cell_id lat ! 0)) \<and>
         d_cube_start lat ! 0 = - 1 \<and> d_cube_end lat ! 0 = - 2"
proof -
  let ?X = "[Pt (1/2) 0 0 (0::real), Pt (- 1/2) 0 0 0]"
  have c: "cube_id_of 1 (?X ! 0) = 63775" "cube_id_of 1 (?X ! 1) = 63774"
    by (simp_all add: cube_id_of_def LATTICE_SIZE_def)
  have v: "\<forall>i<2. valid_cube (cube_id_of 1 (?X ! i))"
    using c by (simp add: less_2_cases_iff valid_cube_def N_CUBES_def LATTICE_SIZE_def)
  have "\<exists>lat. build_lattice 2 (sort_key fst) (int 2) ?X 1 lat2 = Inr lat \<and>
           mset (take 2 (d_cell_id lat)) = mset [0..<2] \<and>
           (\<forall>k<2. d_cube_id lat ! k = cube_id_of 1 (?X ! (d_cell_id lat ! k))) \<and>
           (\<forall>k<2. \<forall>b. valid_cube b \<longrightarrow>
              ((d_cube_start lat ! nat b \<le> int k \<and> int k \<le> d_cube_end lat ! nat b) \<longleftrightarrow>
               b = d_cube_id lat ! k)) \<and>
           (\<forall>b. valid_cube b \<longrightarrow>
              (\<forall>x. d_cube_start lat ! nat b \<le> x \<and> x \<le> d_cube_end lat ! nat b \<longrightarrow>
                   0 \<le> x \<and> x < int 2)) \<and>
           (\<forall>b. valid_cube b \<longrightarrow> (\<forall>k<2. d_cube_id lat ! k \<noteq> b) \<longrightarrow>
              d_cube_start lat ! nat b = - 1 \<and> d_cube_end lat ! nat b = - 2 \<and>
              [d_cube_start lat ! nat b..d_cube_end lat ! nat b] = [])"
    by (rule build_lattice_partition[OF key_sorter_sort_key _ _ _ _ _ v])
      (simp_all add: lat2_def)
  then obtain lat where all: "build_lattice 2 (sort_key fst) (int 2) ?X 1 lat2 = Inr lat \<and>
           mset (take 2 (d_cell_id lat)) = mset [0..<2] \<and>
           (\<forall>k<2. d_cube_id lat ! k = cube_id_of 1 (?X ! (d_cell_id lat ! k))) \<and>
           (\<forall>k<2. \<forall>b. valid_cube b \<longrightarrow>
              ((d_cube_start lat ! nat b \<le> int k \<and> int k \<le> d_cube_end lat ! nat b) \<longleftrightarrow>
               b = d_cube_id lat ! k)) \<and>
           (\<forall>b. valid_cube b \<longrightarrow>
              (\<forall>x. d_cube_start lat ! nat b \<le> x \<and> x \<le> d_cube_end lat ! nat b \<longrightarrow>
                   0 \<le> x \<and> x < int 2)) \<and>
           (\<forall>b. valid_cube b \<longrightarrow> (\<forall>k<2. d_cube_id lat ! k \<noteq> b) \<longrightarrow>
              d_cube_start lat ! nat b = - 1 \<and> d_cube_end lat ! nat b = - 2 \<and>
              [d_cube_start lat ! nat b..d_cube_end lat ! nat b] = [])" ..
  then have b: "build_lattice 2 (sort_key fst) (int 2) ?X 1 lat2 = Inr lat"
    and m: "mset (take 2 (d_cell_id lat)) = mset [0..<2]"
    and i: "\<forall>k<2. d_cube_id lat ! k = cube_id_of 1 (?X ! (d_cell_id lat ! k))"
    and e: "\<forall>b. valid_cube b \<longrightarrow> (\<forall>k<2. d_cube_id lat ! k \<noteq> b) \<longrightarrow>
              d_cube_start lat ! nat b = - 1 \<and> d_cube_end lat ! nat b = - 2 \<and>
              [d_cube_start lat ! nat b..d_cube_end lat ! nat b] = []"
    by (intro conjunct1[OF all] conjunct1[OF conjunct2[OF all]]
        conjunct1[OF conjunct2[OF conjunct2[OF all]]]
        conjunct2[OF conjunct2[OF conjunct2[OF conjunct2[OF conjunct2[OF all]]]]])+
  have len2: "length (take 2 (d_cell_id lat)) = 2"
    using mset_eq_length[OF m] by simp
  have cell: "d_cell_id lat ! k < 2" if "k < 2" for k
  proof -
    have "take 2 (d_cell_id lat) ! k \<in> set (take 2 (d_cell_id lat))"
      using that len2 by (intro nth_mem) simp
    also have "set (take 2 (d_cell_id lat)) = set [0..<2]"
      using mset_eq_setD[OF m] .
    finally show ?thesis using that by simp
  qed
  have ne: "cube_id_of 1 (?X ! e) \<noteq> 0" if "e < 2" for e
  proof -
    from that have "e = 0 \<or> e = 1" by auto
    then show ?thesis using c by auto
  qed
  have "\<forall>k<2. d_cube_id lat ! k \<noteq> 0"
  proof (intro allI impI)
    fix k :: nat assume k: "k < 2"
    from i k have "d_cube_id lat ! k = cube_id_of 1 (?X ! (d_cell_id lat ! k))" by blast
    then show "d_cube_id lat ! k \<noteq> 0" using ne[OF cell[OF k]] by simp
  qed
  moreover have "valid_cube 0" by (simp add: valid_cube_def N_CUBES_def LATTICE_SIZE_def)
  ultimately have "d_cube_start lat ! nat 0 = - 1 \<and> d_cube_end lat ! nat 0 = - 2"
    using e by blast
  moreover from i have "d_cube_id lat ! 0 = cube_id_of 1 (?X ! (d_cell_id lat ! 0))" by simp
  ultimately show ?thesis using b m by simp
qed

section \<open>The lattice evaluator\<close>

lemma h_moore_nhood_eq:
  "h_moore_nhood = [- 1, 0, 1, - 51, - 50, - 49, 49, 50, 51,
                    - 2501, - 2500, - 2499, - 2551, - 2550, - 2549, - 2451, - 2450, - 2449,
                    2499, 2500, 2501, 2449, 2450, 2451, 2549, 2550, 2551]"
  by code_simp

lemma length_h_moore_nhood: "length h_moore_nhood = 27"
  by (simp add: h_moore_nhood_eq)

lemma distinct_h_moore_nhood: "distinct h_moore_nhood"
  by (simp add: h_moore_nhood_eq)

lemma floor_diff_cases:
  fixes a b :: real
  assumes "\<bar>a - b\<bar> < 1"
  shows "\<lfloor>b\<rfloor> - \<lfloor>a\<rfloor> \<in> {- 1, 0, 1}"
proof -
  have "\<lfloor>b\<rfloor> - \<lfloor>a\<rfloor> < 2" "\<lfloor>b\<rfloor> - \<lfloor>a\<rfloor> > - 2" using assms by linarith+
  then show ?thesis by auto
qed

lemma norm3df_less_1D:
  assumes "norm3df a b c < 1"
  shows "\<bar>a\<bar> < 1" "\<bar>b\<bar> < 1" "\<bar>c\<bar> < 1"
proof -
  from assms have s: "a * a + b * b + c * c < 1"
    by (simp add: norm3df_def)
  have "a * a \<ge> 0" "b * b \<ge> 0" "c * c \<ge> 0" by simp_all
  with s have "a * a < 1" "b * b < 1" "c * c < 1" by linarith+
  then show "\<bar>a\<bar> < 1" "\<bar>b\<bar> < 1" "\<bar>c\<bar> < 1"
    by (simp_all add: abs_square_less_1[symmetric] power2_eq_square)
qed

lemma near_in_moore_nhood:
  fixes a b :: "'a::real_vector Pt"
  assumes "dist3 a b < 1"
  shows "cube_id_of 1 b - cube_id_of 1 a \<in> set h_moore_nhood"
proof -
  note n = norm3df_less_1D[OF assms[unfolded dist3_def]]
  have x: "\<lfloor>Pt_x b\<rfloor> - \<lfloor>Pt_x a\<rfloor> \<in> {- 1, 0, 1}" using floor_diff_cases[of "Pt_x a" "Pt_x b"] n(1) by simp
  have y: "\<lfloor>Pt_y b\<rfloor> - \<lfloor>Pt_y a\<rfloor> \<in> {- 1, 0, 1}" using floor_diff_cases[of "Pt_y a" "Pt_y b"] n(2) by simp
  have z: "\<lfloor>Pt_z b\<rfloor> - \<lfloor>Pt_z a\<rfloor> \<in> {- 1, 0, 1}" using floor_diff_cases[of "Pt_z a" "Pt_z b"] n(3) by simp
  have e: "cube_id_of 1 b - cube_id_of 1 a =
        (\<lfloor>Pt_x b\<rfloor> - \<lfloor>Pt_x a\<rfloor>) + (\<lfloor>Pt_y b\<rfloor> - \<lfloor>Pt_y a\<rfloor>) * 50 + (\<lfloor>Pt_z b\<rfloor> - \<lfloor>Pt_z a\<rfloor>) * 2500"
    unfolding cube_id_of_def LATTICE_SIZE_def by (simp add: algebra_simps)
  have all: "\<forall>u\<in>{- 1, 0, 1}. \<forall>v\<in>{- 1, 0, 1}. \<forall>w\<in>{- 1, 0, 1::int}.
           u + v * 50 + w * 2500 \<in> set h_moore_nhood"
    unfolding h_moore_nhood_eq by simp
  show ?thesis unfolding e using all x y z by blast
qed

declare lattice_k_loop.simps [simp del] lattice_j_loop.simps [simp del]

lemma lattice_pair_eq:
  "lattice_pair X old_v pw lat i k (F, sum_v, nNBs) =
     (if dist3 (X ! (d_cell_id lat ! i)) (X ! (d_cell_id lat ! nat k)) < 1 then
          (F + pw (X ! (d_cell_id lat ! i)) (X ! (d_cell_id lat ! i) - X ! (d_cell_id lat ! nat k))
                 (dist3 (X ! (d_cell_id lat ! i)) (X ! (d_cell_id lat ! nat k)))
                 (d_cell_id lat ! i) (d_cell_id lat ! nat k),
           sum_v[d_cell_id lat ! i := sum_v ! (d_cell_id lat ! i) + old_v ! (d_cell_id lat ! nat k)],
           nNBs[d_cell_id lat ! i := nNBs ! (d_cell_id lat ! i) + 1])
        else (F, sum_v, nNBs))"
  by (simp add: lattice_pair_def)

lemma lattice_k_loop_fold:
  assumes "k \<le> k_end \<longrightarrow> 0 \<le> k \<and> k_end < int (length (d_cell_id lat))"
  shows "lattice_k_loop X old_v pw lat i (X ! (d_cell_id lat ! i)) k k_end st =
         Inr (fold (lattice_pair X old_v pw lat i) [k..k_end] st)"
  using assms
proof (induction "nat (k_end + 1 - k)" arbitrary: k st)
  case 0
  then have "k_end < k" by simp
  then show ?case by (subst lattice_k_loop.simps) simp
next
  case (Suc d)
  then have le: "k \<le> k_end" and d: "d = nat (k_end + 1 - (k + 1))" by simp_all
  with Suc.prems have k0: "0 \<le> k" and ke: "k_end < int (length (d_cell_id lat))" by simp_all
  have up: "[k..k_end] = k # [k + 1..k_end]" using le by (simp add: upto_rec1)
  obtain F sum_v nNBs where st: "st = (F, sum_v, nNBs)" by (cases st)
  have IH: "\<And>st'. lattice_k_loop X old_v pw lat i (X ! (d_cell_id lat ! i)) (k + 1) k_end st' =
         Inr (fold (lattice_pair X old_v pw lat i) [k + 1..k_end] st')"
    using Suc.hyps(1)[OF d] k0 ke by simp
  show ?case
    using le k0 ke
    by (subst lattice_k_loop.simps)
      (simp add: up st IH lattice_pair_def dist3_def CUBE_SIZE_def Let_def)
qed

lemma lattice_pair_fold:
  assumes "d_cell_id lat ! i < length sum_v" "d_cell_id lat ! i < length nNBs"
  shows "fold (lattice_pair X old_v pw lat i) ks (F, sum_v, nNBs) =
     (F + (\<Sum>k\<leftarrow>ks. if dist3 (X ! (d_cell_id lat ! i)) (X ! (d_cell_id lat ! nat k)) < 1
                     then pw (X ! (d_cell_id lat ! i))
                            (X ! (d_cell_id lat ! i) - X ! (d_cell_id lat ! nat k))
                            (dist3 (X ! (d_cell_id lat ! i)) (X ! (d_cell_id lat ! nat k)))
                            (d_cell_id lat ! i) (d_cell_id lat ! nat k)
                     else 0),
      sum_v[d_cell_id lat ! i := sum_v ! (d_cell_id lat ! i) +
          (\<Sum>k\<leftarrow>ks. if dist3 (X ! (d_cell_id lat ! i)) (X ! (d_cell_id lat ! nat k)) < 1
                    then old_v ! (d_cell_id lat ! nat k) else 0)],
      nNBs[d_cell_id lat ! i := nNBs ! (d_cell_id lat ! i) +
          (\<Sum>k\<leftarrow>ks. if dist3 (X ! (d_cell_id lat ! i)) (X ! (d_cell_id lat ! nat k)) < 1
                    then 1 else 0)])"
    (is "_ = ?rhs ks F sum_v nNBs")
  using assms
proof (induction ks arbitrary: F sum_v nNBs)
  case Nil
  then show ?case by simp
next
  case (Cons k ks)
  let ?near = "dist3 (X ! (d_cell_id lat ! i)) (X ! (d_cell_id lat ! nat k)) < 1"
  show ?case
  proof (cases ?near)
    case True
    have "fold (lattice_pair X old_v pw lat i) (k # ks) (F, sum_v, nNBs) =
          fold (lattice_pair X old_v pw lat i) ks
            (F + pw (X ! (d_cell_id lat ! i)) (X ! (d_cell_id lat ! i) - X ! (d_cell_id lat ! nat k))
                 (dist3 (X ! (d_cell_id lat ! i)) (X ! (d_cell_id lat ! nat k)))
                 (d_cell_id lat ! i) (d_cell_id lat ! nat k),
             sum_v[d_cell_id lat ! i := sum_v ! (d_cell_id lat ! i) + old_v ! (d_cell_id lat ! nat k)],
             nNBs[d_cell_id lat ! i := nNBs ! (d_cell_id lat ! i) + 1])"
      using True by (simp add: lattice_pair_eq)
    also have "\<dots> = ?rhs (k # ks) F sum_v nNBs"
      using True Cons.prems by (subst Cons.IH) (simp_all add: add.assoc)
    finally show ?thesis .
  next
    case False
    have "fold (lattice_pair X old_v pw lat i) (k # ks) (F, sum_v, nNBs) =
          fold (lattice_pair X old_v pw lat i) ks (F, sum_v, nNBs)"
      using False by (simp add: lattice_pair_eq)
    also have "\<dots> = ?rhs (k # ks) F sum_v nNBs"
      using False Cons.prems by (subst Cons.IH) simp_all
    finally show ?thesis .
  qed
qed

lemma nhood_positions_Cons:
  "nhood_positions lat i (j # js) =
     [d_cube_start lat ! nat (d_cube_id lat ! i + h_moore_nhood ! j)..
      d_cube_end lat ! nat (d_cube_id lat ! i + h_moore_nhood ! j)] @ nhood_positions lat i js"
  by (simp add: nhood_positions_def)

lemma lattice_j_loop_fold:
  assumes ok: "lattice_ok n cs X lat"
  shows "j \<le> 27 \<Longrightarrow> lattice_j_loop X old_v pw lat i (X ! (d_cell_id lat ! i)) j st =
     (if \<forall>j'. j \<le> j' \<and> j' < 27 \<longrightarrow> valid_cube (d_cube_id lat ! i + h_moore_nhood ! j')
      then Inr (fold (lattice_pair X old_v pw lat i) (nhood_positions lat i [j..<27]) st)
      else Inl OutOfBounds)"
proof (induction "27 - j" arbitrary: j st)
  case 0
  then have "j = 27" by simp
  then show ?case by (subst lattice_j_loop.simps) (simp add: nhood_positions_def)
next
  case (Suc d)
  then have j: "j < 27" and d: "d = 27 - (j + 1)" and j1: "j + 1 \<le> 27" by simp_all
  let ?c = "d_cube_id lat ! i + h_moore_nhood ! j"
  have up: "[j..<27] = j # [j + 1..<27]" using j by (simp add: upt_conv_Cons)
  show ?case
  proof (cases "valid_cube ?c")
    case False
    then have "\<not> (\<forall>j'. j \<le> j' \<and> j' < 27 \<longrightarrow> valid_cube (d_cube_id lat ! i + h_moore_nhood ! j'))"
      using j by auto
    moreover have oob: "?c < 0 \<or> ?c \<ge> N_CUBES" using False by (auto simp: valid_cube_def)
    have "lattice_j_loop X old_v pw lat i (X ! (d_cell_id lat ! i)) j st = Inl OutOfBounds"
      using oob j by (subst lattice_j_loop.simps) (simp add: Let_def)
    ultimately show ?thesis by simp
  next
    case True
    then have inb: "\<not> (?c < 0 \<or> ?c \<ge> N_CUBES)" by (auto simp: valid_cube_def)
    note D = lattice_okD[OF ok]
    have rng: "d_cube_start lat ! nat ?c \<le> d_cube_end lat ! nat ?c \<longrightarrow>
          0 \<le> d_cube_start lat ! nat ?c \<and> d_cube_end lat ! nat ?c < int (length (d_cell_id lat))"
      using D(6)[OF True, of "d_cube_start lat ! nat ?c"] D(6)[OF True, of "d_cube_end lat ! nat ?c"]
        D(1) by auto
    have all: "(\<forall>j'. j \<le> j' \<and> j' < 27 \<longrightarrow> valid_cube (d_cube_id lat ! i + h_moore_nhood ! j')) \<longleftrightarrow>
               (\<forall>j'. j + 1 \<le> j' \<and> j' < 27 \<longrightarrow> valid_cube (d_cube_id lat ! i + h_moore_nhood ! j'))"
      using True by (metis Suc_eq_plus1 Suc_leI le_neq_implies_less le_trans le_add1)
    have "lattice_j_loop X old_v pw lat i (X ! (d_cell_id lat ! i)) j st =
          lattice_j_loop X old_v pw lat i (X ! (d_cell_id lat ! i)) (j + 1)
            (fold (lattice_pair X old_v pw lat i)
               [d_cube_start lat ! nat ?c..d_cube_end lat ! nat ?c] st)"
      using inb j
      by (subst lattice_j_loop.simps)
        (simp add: Let_def lattice_k_loop_fold[OF rng])
    then show ?thesis
      unfolding Suc.hyps(1)[OF d j1] all up nhood_positions_Cons by simp
  qed
qed

lemma sum_list_nhood_positions:
  fixes G :: "int \<Rightarrow> 'b::comm_monoid_add"
  shows "(\<Sum>k\<leftarrow>nhood_positions lat i js. G k) =
     (\<Sum>j\<leftarrow>js. \<Sum>k\<leftarrow>[d_cube_start lat ! nat (d_cube_id lat ! i + h_moore_nhood ! j)..
                      d_cube_end lat ! nat (d_cube_id lat ! i + h_moore_nhood ! j)]. G k)"
  by (induction js) (simp_all add: nhood_positions_def)

lemma range_sum:
  fixes G :: "int \<Rightarrow> 'b::comm_monoid_add"
  assumes ok: "lattice_ok n cs X lat" and c: "valid_cube c"
  shows "(\<Sum>k\<leftarrow>[d_cube_start lat ! nat c..d_cube_end lat ! nat c]. G k) =
         (\<Sum>k<n. if d_cube_id lat ! k = c then G (int k) else 0)"
proof -
  note D = lattice_okD[OF ok]
  let ?s = "d_cube_start lat ! nat c" and ?e = "d_cube_end lat ! nat c"
  let ?K = "{k. k < n \<and> d_cube_id lat ! k = c}"
  have set_eq: "{?s..?e} = int ` ?K"
  proof (intro set_eqI iffI)
    fix x assume "x \<in> {?s..?e}"
    then have x: "?s \<le> x" "x \<le> ?e" by simp_all
    from D(6)[OF c x] have x0: "0 \<le> x" "x < int n" by simp_all
    then have "nat x < n" by simp
    moreover have "d_cube_id lat ! nat x = c"
      using D(5)[OF c \<open>nat x < n\<close>] x x0 by simp
    ultimately show "x \<in> int ` ?K" using x0 by (intro image_eqI[of _ _ "nat x"]) simp_all
  next
    fix x assume "x \<in> int ` ?K"
    then obtain k where k: "x = int k" "k < n" "d_cube_id lat ! k = c" by auto
    then show "x \<in> {?s..?e}" using D(5)[OF c k(2)] by simp
  qed
  have "(\<Sum>k\<leftarrow>[?s..?e]. G k) = sum G (set [?s..?e])"
    by (rule sum_list_distinct_conv_sum_set) simp
  also have "\<dots> = sum G (int ` ?K)" using set_eq by simp
  also have "\<dots> = sum (G \<circ> int) ?K" by (rule sum.reindex) simp
  also have "\<dots> = sum (\<lambda>k. G (int k)) {k \<in> {..<n}. d_cube_id lat ! k = c}"
    by (simp add: comp_def)
  also have "\<dots> = (\<Sum>k<n. if d_cube_id lat ! k = c then G (int k) else 0)"
    by (rule sum.inter_filter) simp
  finally show ?thesis .
qed

lemma sum_delta_distinct:
  fixes a :: "'b::comm_monoid_add"
  assumes "distinct xs"
  shows "(\<Sum>j<length xs. if xs ! j = d then a else 0) = (if d \<in> set xs then a else 0)"
proof (cases "d \<in> set xs")
  case False
  then have "\<And>j. j < length xs \<Longrightarrow> xs ! j \<noteq> d" by auto
  then show ?thesis using False by simp
next
  case True
  then obtain j0 where j0: "j0 < length xs" "xs ! j0 = d" by (auto simp: in_set_conv_nth)
  have "(\<Sum>j<length xs. if xs ! j = d then a else 0) = (\<Sum>j<length xs. if j = j0 then a else 0)"
    using j0 assms by (intro sum.cong) (auto simp: nth_eq_iff_index_eq)
  also have "\<dots> = a" using j0 by simp
  finally show ?thesis using True by simp
qed

lemma nhood_sum:
  fixes G :: "int \<Rightarrow> 'b::comm_monoid_add"
  assumes ok: "lattice_ok n cs X lat"
    and cv: "\<And>j. j < 27 \<Longrightarrow> valid_cube (d_cube_id lat ! i + h_moore_nhood ! j)"
    and zero: "\<And>k. k < n \<Longrightarrow> d_cube_id lat ! k - d_cube_id lat ! i \<notin> set h_moore_nhood \<Longrightarrow>
                 G (int k) = 0"
  shows "(\<Sum>k\<leftarrow>nhood_positions lat i [0..<27]. G k) = (\<Sum>k<n. G (int k))"
proof -
  let ?c = "\<lambda>j. d_cube_id lat ! i + h_moore_nhood ! j"
  have "(\<Sum>k\<leftarrow>nhood_positions lat i [0..<27]. G k) =
        (\<Sum>j\<leftarrow>[0..<27]. \<Sum>k\<leftarrow>[d_cube_start lat ! nat (?c j)..d_cube_end lat ! nat (?c j)]. G k)"
    by (rule sum_list_nhood_positions)
  also have "\<dots> = (\<Sum>j<27. \<Sum>k\<leftarrow>[d_cube_start lat ! nat (?c j)..d_cube_end lat ! nat (?c j)]. G k)"
    by (simp add: interv_sum_list_conv_sum_set_nat atLeast0LessThan)
  also have "\<dots> = (\<Sum>j<27. \<Sum>k<n. if d_cube_id lat ! k = ?c j then G (int k) else 0)"
    by (intro sum.cong refl range_sum[OF ok] cv) simp
  also have "\<dots> = (\<Sum>k<n. \<Sum>j<27. if d_cube_id lat ! k = ?c j then G (int k) else 0)"
    by (rule sum.swap)
  also have "\<dots> = (\<Sum>k<n. G (int k))"
  proof (intro sum.cong refl)
    fix k assume "k \<in> {..<n}"
    then have k: "k < n" by simp
    have "(\<Sum>j<27. if d_cube_id lat ! k = ?c j then G (int k) else 0) =
          (\<Sum>j<length h_moore_nhood.
              if h_moore_nhood ! j = d_cube_id lat ! k - d_cube_id lat ! i then G (int k) else 0)"
      unfolding length_h_moore_nhood by (intro sum.cong refl) (simp add: algebra_simps)
    also have "\<dots> = (if d_cube_id lat ! k - d_cube_id lat ! i \<in> set h_moore_nhood
                      then G (int k) else 0)"
      by (rule sum_delta_distinct[OF distinct_h_moore_nhood])
    also have "\<dots> = G (int k)" using zero[OF k] by simp
    finally show "(\<Sum>j<27. if d_cube_id lat ! k = ?c j then G (int k) else 0) = G (int k)" .
  qed
  finally show ?thesis .
qed

lemma perm_sum:
  fixes H :: "nat \<Rightarrow> 'b::comm_monoid_add"
  assumes "n \<le> length cells" "mset (take n cells) = mset [0..<n]"
  shows "(\<Sum>k<n. H (cells ! k)) = (\<Sum>e<n. H e)"
proof -
  have "(\<Sum>k<n. H (cells ! k)) = sum_list (map H (take n cells))"
    using assms(1) by (simp add: sum_list_take_nth)
  also have "\<dots> = sum_mset (image_mset H (mset (take n cells)))"
    by (metis mset_map sum_mset_sum_list)
  also have "\<dots> = sum_mset (image_mset H (mset [0..<n]))" by (simp only: assms(2))
  also have "\<dots> = sum_list (map H [0..<n])" by (metis mset_map sum_mset_sum_list)
  also have "\<dots> = (\<Sum>e<n. H e)"
    by (simp add: interv_sum_list_conv_sum_set_nat atLeast0LessThan)
  finally show ?thesis .
qed

lemma perm_facts:
  assumes "n \<le> length cells" "mset (take n cells) = mset [0..<n]"
  shows "\<And>i. i < n \<Longrightarrow> cells ! i < n"
    and "\<And>i i'. i < n \<Longrightarrow> i' < n \<Longrightarrow> cells ! i = cells ! i' \<Longrightarrow> i = i'"
    and "\<And>e. e < n \<Longrightarrow> \<exists>i<n. cells ! i = e"
proof -
  have len: "length (take n cells) = n" using assms(1) by simp
  have set: "set (take n cells) = {0..<n}" using mset_eq_setD[OF assms(2)] by simp
  have dist: "distinct (take n cells)"
    using mset_eq_imp_distinct_iff[OF assms(2)] by simp
  show "\<And>i. i < n \<Longrightarrow> cells ! i < n"
  proof -
    fix i assume i: "i < n"
    then have "take n cells ! i \<in> set (take n cells)" using len by (intro nth_mem) simp
    then show "cells ! i < n" using set i by simp
  qed
  show "\<And>i i'. i < n \<Longrightarrow> i' < n \<Longrightarrow> cells ! i = cells ! i' \<Longrightarrow> i = i'"
  proof -
    fix i i' assume a: "i < n" "i' < n" "cells ! i = cells ! i'"
    then have "take n cells ! i = take n cells ! i'" by simp
    moreover have "i < length (take n cells)" "i' < length (take n cells)" using a len by simp_all
    ultimately show "i = i'" using dist nth_eq_iff_index_eq by blast
  qed
  show "\<And>e. e < n \<Longrightarrow> \<exists>i<n. cells ! i = e"
  proof -
    fix e assume "e < n"
    then have "e \<in> set (take n cells)" using set by simp
    then obtain i where "i < length (take n cells)" "take n cells ! i = e"
      by (auto simp: in_set_conv_nth)
    then show "\<exists>i<n. cells ! i = e" using len by auto
  qed
qed

lemma lattice_thread_result:
  fixes X :: "'a::real_vector Pt list"
  assumes ok: "lattice_ok n 1 X lat" and i: "i < n"
    and len: "d_cell_id lat ! i < length sum_v" "d_cell_id lat ! i < length nNBs"
  shows "compute_lattice_pwints_thread n X old_v pw lat i (dX, sum_v, nNBs) =
     (if \<forall>j<27. valid_cube (d_cube_id lat ! i + h_moore_nhood ! j)
      then Inr (dX[d_cell_id lat ! i := lattice_F n pw X (d_cell_id lat ! i)],
                sum_v[d_cell_id lat ! i := sum_v ! (d_cell_id lat ! i) +
                        sum ((!) old_v) (neighbours n X (d_cell_id lat ! i))],
                nNBs[d_cell_id lat ! i := nNBs ! (d_cell_id lat ! i) +
                        int (card (neighbours n X (d_cell_id lat ! i)))])
      else Inl OutOfBounds)"
proof (cases "\<forall>j<27. valid_cube (d_cube_id lat ! i + h_moore_nhood ! j)")
  case False
  then have "\<not> (\<forall>j'. 0 \<le> j' \<and> j' < 27 \<longrightarrow> valid_cube (d_cube_id lat ! i + h_moore_nhood ! j'))"
    by simp
  then have "lattice_j_loop X old_v pw lat i (X ! (d_cell_id lat ! i)) 0 (0, sum_v, nNBs) = Inl OutOfBounds"
    by (subst lattice_j_loop_fold[OF ok]) simp_all
  then show ?thesis using False i by (simp add: compute_lattice_pwints_thread_def)
next
  case True
  note D = lattice_okD[OF ok]
  let ?e = "d_cell_id lat ! i"
  let ?near = "\<lambda>e'. dist3 (X ! ?e) (X ! e') < 1"
  have cv: "\<And>j. j < 27 \<Longrightarrow> valid_cube (d_cube_id lat ! i + h_moore_nhood ! j)" using True by simp
  have far: "\<not> ?near (d_cell_id lat ! k)"
    if "k < n" "d_cube_id lat ! k - d_cube_id lat ! i \<notin> set h_moore_nhood" for k
    using near_in_moore_nhood[of "X ! ?e" "X ! (d_cell_id lat ! k)"] that D(3)[OF i] D(3)[OF that(1)]
    by auto
  have red: "(\<Sum>k\<leftarrow>nhood_positions lat i [0..<27]. if ?near (d_cell_id lat ! nat k) then H (d_cell_id lat ! nat k) else 0) =
             (\<Sum>e'<n. if ?near e' then H e' else 0)" for H :: "nat \<Rightarrow> 'b::comm_monoid_add"
  proof -
    have "(\<Sum>k\<leftarrow>nhood_positions lat i [0..<27]. if ?near (d_cell_id lat ! nat k) then H (d_cell_id lat ! nat k) else 0) =
          (\<Sum>k<n. if ?near (d_cell_id lat ! nat (int k)) then H (d_cell_id lat ! nat (int k)) else 0)"
    proof (rule nhood_sum[OF ok cv])
      fix k assume "k < n" "d_cube_id lat ! k - d_cube_id lat ! i \<notin> set h_moore_nhood"
      from far[OF this] show "(if ?near (d_cell_id lat ! nat (int k))
              then H (d_cell_id lat ! nat (int k)) else 0) = 0" by simp
    qed
    also have "\<dots> = (\<Sum>k<n. if ?near (d_cell_id lat ! k) then H (d_cell_id lat ! k) else 0)"
      by (simp cong: if_cong)
    also have "\<dots> = (\<Sum>e'<n. if ?near e' then H e' else 0)"
      by (rule perm_sum[OF D(1,2), where H = "\<lambda>e'. if ?near e' then H e' else 0"])
    finally show ?thesis .
  qed
  have j: "lattice_j_loop X old_v pw lat i (X ! ?e) 0 (0, sum_v, nNBs) =
           Inr (fold (lattice_pair X old_v pw lat i) (nhood_positions lat i [0..<27]) (0, sum_v, nNBs))"
    using True by (subst lattice_j_loop_fold[OF ok]) simp_all
  have F: "fold (lattice_pair X old_v pw lat i) (nhood_positions lat i [0..<27]) (0, sum_v, nNBs) =
           (lattice_F n pw X ?e,
            sum_v[?e := sum_v ! ?e + sum ((!) old_v) (neighbours n X ?e)],
            nNBs[?e := nNBs ! ?e + int (card (neighbours n X ?e))])"
    unfolding lattice_pair_fold[OF len]
      red[of "\<lambda>e'. pw (X ! ?e) (X ! ?e - X ! e') (dist3 (X ! ?e) (X ! e')) ?e e'"]
      red[of "\<lambda>e'. old_v ! e'"] red[of "\<lambda>e'. 1::int"]
    by (simp add: lattice_F_def sum_if_neighbours card_neighbours)
  show ?thesis
    using True i by (simp add: compute_lattice_pwints_thread_def j F)
qed

lemma lattice_inv_step:
  fixes X :: "'a::real_vector Pt list"
  assumes ok: "lattice_ok n 1 X lat"
    and len: "n \<le> length dX" "n \<le> length sum_v" "n \<le> length nNBs"
    and inv: "lattice_inv n pw X old_v (d_cell_id lat) dX sum_v nNBs m t"
    and th: "compute_lattice_pwints_thread n X old_v pw lat m t = Inr t'"
  shows "lattice_inv n pw X old_v (d_cell_id lat) dX sum_v nNBs (Suc m) t'"
proof (cases "m < n")
  case False
  then have "t' = t" using th by (simp add: compute_lattice_pwints_thread_def)
  then show ?thesis using inv False unfolding lattice_inv_def by (auto split: prod.splits)
next
  case True
  note D = lattice_okD[OF ok]
  note pf = perm_facts[OF D(1,2)]
  let ?c = "\<lambda>i. d_cell_id lat ! i"
  obtain dX1 sv1 nb1 where t: "t = (dX1, sv1, nb1)" by (cases t)
  from inv have l: "length dX1 = length dX" "length sv1 = length sum_v" "length nb1 = length nNBs"
    and fin: "\<And>i. i < n \<Longrightarrow> i < m \<Longrightarrow>
           dX1 ! ?c i = lattice_F n pw X (?c i) \<and>
           sv1 ! ?c i = sum_v ! ?c i + sum ((!) old_v) (neighbours n X (?c i)) \<and>
           nb1 ! ?c i = nNBs ! ?c i + int (card (neighbours n X (?c i)))"
    and todo: "\<And>i. i < n \<Longrightarrow> m \<le> i \<Longrightarrow> sv1 ! ?c i = sum_v ! ?c i \<and> nb1 ! ?c i = nNBs ! ?c i"
    unfolding lattice_inv_def t by simp_all
  have cm: "?c m < length sv1" "?c m < length nb1" "?c m < length dX1"
    using pf(1)[OF True] len l by simp_all
  have t': "t' = (dX1[?c m := lattice_F n pw X (?c m)],
                  sv1[?c m := sv1 ! ?c m + sum ((!) old_v) (neighbours n X (?c m))],
                  nb1[?c m := nb1 ! ?c m + int (card (neighbours n X (?c m)))])"
    using th unfolding t lattice_thread_result[OF ok True cm(1,2)]
    by (simp split: if_splits)
  have ne: "?c i \<noteq> ?c m" if "i < n" "i \<noteq> m" for i
    using pf(2)[OF that(1) True] that(2) by blast
  show ?thesis
    unfolding lattice_inv_def t' prod.case
  proof (intro conjI allI impI)
    show "length (dX1[?c m := lattice_F n pw X (?c m)]) = length dX" using l by simp
    show "length (sv1[?c m := sv1 ! ?c m + sum ((!) old_v) (neighbours n X (?c m))]) = length sum_v"
      using l by simp
    show "length (nb1[?c m := nb1 ! ?c m + int (card (neighbours n X (?c m)))]) = length nNBs"
      using l by simp
  next
    fix i assume i: "i < n" "i < Suc m"
    show "dX1[?c m := lattice_F n pw X (?c m)] ! ?c i = lattice_F n pw X (?c i)"
      using i cm fin[OF i(1)] ne[OF i(1)] by (cases "i = m") (simp_all add: nth_list_update)
    show "sv1[?c m := sv1 ! ?c m + sum ((!) old_v) (neighbours n X (?c m))] ! ?c i =
          sum_v ! ?c i + sum ((!) old_v) (neighbours n X (?c i))"
      using i cm fin[OF i(1)] ne[OF i(1)] todo[OF True]
      by (cases "i = m") (simp_all add: nth_list_update)
    show "nb1[?c m := nb1 ! ?c m + int (card (neighbours n X (?c m)))] ! ?c i =
          nNBs ! ?c i + int (card (neighbours n X (?c i)))"
      using i cm fin[OF i(1)] ne[OF i(1)] todo[OF True]
      by (cases "i = m") (simp_all add: nth_list_update)
  next
    fix i assume i: "i < n" "Suc m \<le> i"
    then have "i \<noteq> m" "m \<le> i" by simp_all
    then show "sv1[?c m := sv1 ! ?c m + sum ((!) old_v) (neighbours n X (?c m))] ! ?c i = sum_v ! ?c i"
      "nb1[?c m := nb1 ! ?c m + int (card (neighbours n X (?c m)))] ! ?c i = nNBs ! ?c i"
      using todo[OF i(1)] ne[OF i(1)] by (simp_all add: nth_list_update)
  qed
qed

lemma lattice_inv_init:
  "lattice_inv n pw X old_v cells dX sum_v nNBs 0 (dX, sum_v, nNBs)"
  by (simp add: lattice_inv_def)

lemma lattice_kernel_result:
  fixes X :: "'a::real_vector Pt list"
  assumes ok: "lattice_ok n 1 X lat"
    and len: "n \<le> length dX" "n \<le> length sum_v" "n \<le> length nNBs"
    and r: "compute_lattice_pwints n pw X dX old_v sum_v nNBs lat = Inr (dX', sum_v', nNBs')"
    and e: "e < n"
  shows "dX' ! e = lattice_F n pw X e"
    and "sum_v' ! e = sum_v ! e + sum ((!) old_v) (neighbours n X e)"
    and "nNBs' ! e = nNBs ! e + int (card (neighbours n X e))"
proof -
  let ?G = "((n + TILE_SIZE - 1) div TILE_SIZE) * TILE_SIZE"
  have "lattice_inv n pw X old_v (d_cell_id lat) dX sum_v nNBs ?G (dX', sum_v', nNBs')"
    by (rule launch_err_invariant[where P = "lattice_inv n pw X old_v (d_cell_id lat) dX sum_v nNBs",
          OF lattice_inv_init _ r[unfolded compute_lattice_pwints_def]])
      (rule lattice_inv_step[OF ok len])
  then have fin: "\<And>i. i < n \<Longrightarrow> i < ?G \<Longrightarrow>
           dX' ! (d_cell_id lat ! i) = lattice_F n pw X (d_cell_id lat ! i) \<and>
           sum_v' ! (d_cell_id lat ! i) = sum_v ! (d_cell_id lat ! i) +
              sum ((!) old_v) (neighbours n X (d_cell_id lat ! i)) \<and>
           nNBs' ! (d_cell_id lat ! i) = nNBs ! (d_cell_id lat ! i) +
              int (card (neighbours n X (d_cell_id lat ! i)))"
    unfolding lattice_inv_def by simp
  note D = lattice_okD[OF ok]
  obtain i where i: "i < n" "d_cell_id lat ! i = e" using perm_facts(3)[OF D(1,2) e] by blast
  have "i < ?G" using grid_covers[of n] i by (simp add: TILE_SIZE_def)
  from fin[OF i(1) this] show "dX' ! e = lattice_F n pw X e"
    and "sum_v' ! e = sum_v ! e + sum ((!) old_v) (neighbours n X e)"
    and "nNBs' ! e = nNBs ! e + int (card (neighbours n X e))"
    unfolding i(2) by simp_all
qed

lemma lattice_kernel_total:
  fixes X :: "'a::real_vector Pt list"
  assumes ok: "lattice_ok n 1 X lat"
    and len: "n \<le> length dX" "n \<le> length sum_v" "n \<le> length nNBs"
    and cv: "\<And>i j. i < n \<Longrightarrow> j < 27 \<Longrightarrow> valid_cube (d_cube_id lat ! i + h_moore_nhood ! j)"
  shows "\<exists>r. compute_lattice_pwints n pw X dX old_v sum_v nNBs lat = Inr r"
proof -
  let ?G = "((n + TILE_SIZE - 1) div TILE_SIZE) * TILE_SIZE"
  let ?P = "lattice_inv n pw X old_v (d_cell_id lat) dX sum_v nNBs"
  note D = lattice_okD[OF ok]
  have "\<exists>s'. launch_err (compute_lattice_pwints_thread n X old_v pw lat) [0..<?G] (dX, sum_v, nNBs) = Inr s' \<and>
          ?P ?G s'"
  proof (rule launch_err_total[where P = ?P, OF lattice_inv_init])
    fix i t assume "i < ?G" and inv: "?P i t"
    obtain dX1 sv1 nb1 where t: "t = (dX1, sv1, nb1)" by (cases t)
    have "\<exists>t'. compute_lattice_pwints_thread n X old_v pw lat i t = Inr t'"
    proof (cases "i < n")
      case False
      then show ?thesis by (simp add: compute_lattice_pwints_thread_def t)
    next
      case True
      have "d_cell_id lat ! i < length sv1" "d_cell_id lat ! i < length nb1"
        using inv perm_facts(1)[OF D(1,2) True] len unfolding lattice_inv_def t by simp_all
      from lattice_thread_result[OF ok True this] cv[OF True] show ?thesis
        unfolding t by simp
    qed
    then obtain t' where t': "compute_lattice_pwints_thread n X old_v pw lat i t = Inr t'" by blast
    from lattice_inv_step[OF ok len inv t'] t'
    show "\<exists>t'. compute_lattice_pwints_thread n X old_v pw lat i t = Inr t' \<and> ?P (Suc i) t'" by blast
  qed
  then show ?thesis unfolding compute_lattice_pwints_def by blast
qed

lemma build_lattice_Inr_ok:
  assumes ks: "key_sorter srt"
    and len: "n \<le> length (d_cube_id lat0)" "n \<le> length (d_cell_id lat0)"
      "length (d_cube_start lat0) = nat N_CUBES" "length (d_cube_end lat0) = nat N_CUBES"
    and b: "build_lattice n_max srt (int n) X cs lat0 = Inr lat"
  shows "lattice_ok n cs X lat"
proof -
  have nm: "int n \<le> n_max" using b by (auto simp: build_lattice_def split: if_splits)
  note r = build_lattice_result[OF ks nm len, of cs X]
  have "\<forall>i<n. valid_cube (cube_id_of cs (X ! i))"
  proof (rule ccontr)
    assume "\<not> (\<forall>i<n. valid_cube (cube_id_of cs (X ! i)))"
    then have "build_lattice n_max srt (int n) X cs lat0 = Inl AssertionFailed"
      using r by blast
    with b show False by simp
  qed
  then obtain lat' where "build_lattice n_max srt (int n) X cs lat0 = Inr lat'" "lattice_ok n cs X lat'"
    using r by blast
  with b show ?thesis by simp
qed

lemma cube_id_bounds:
  fixes a b c :: int
  assumes "1 \<le> a" "a \<le> 48" "1 \<le> b" "b \<le> 48" "1 \<le> c" "c \<le> 48"
  shows "2551 \<le> a + b * 50 + c * 50 * 50" "a + b * 50 + c * 50 * 50 \<le> 122448"
  using assms by simp_all

lemma interior_cube_id:
  assumes "interior_cube p"
  shows "2551 \<le> cube_id_of 1 p" "cube_id_of 1 p \<le> 122448"
proof -
  have d: "(50::int) div 2 = 25" "(50::int) - 2 = 48" by simp_all
  note i = assms[unfolded interior_cube_def CUBE_SIZE_def LATTICE_SIZE_def div_by_1 d]
  show "2551 \<le> cube_id_of 1 p" "cube_id_of 1 p \<le> 122448"
    unfolding cube_id_of_def LATTICE_SIZE_def div_by_1 d
    by (rule cube_id_bounds; rule i[THEN conjunct1] i[THEN conjunct2, THEN conjunct1]
        i[THEN conjunct2, THEN conjunct2, THEN conjunct1]
        i[THEN conjunct2, THEN conjunct2, THEN conjunct2, THEN conjunct1]
        i[THEN conjunct2, THEN conjunct2, THEN conjunct2, THEN conjunct2, THEN conjunct1]
        i[THEN conjunct2, THEN conjunct2, THEN conjunct2, THEN conjunct2, THEN conjunct2])+
qed

lemma moore_offsets_bounded: "\<forall>x\<in>set h_moore_nhood. - 2551 \<le> x \<and> x \<le> 2551"
  unfolding h_moore_nhood_eq by simp

lemma interior_nhood_valid:
  assumes "interior_cube p" "j < 27"
  shows "valid_cube (cube_id_of 1 p + h_moore_nhood ! j)"
proof -
  have "h_moore_nhood ! j \<in> set h_moore_nhood"
    using assms(2) by (simp add: length_h_moore_nhood)
  then have "- 2551 \<le> h_moore_nhood ! j \<and> h_moore_nhood ! j \<le> 2551"
    using moore_offsets_bounded by blast
  then show ?thesis
    using interior_cube_id[OF assms(1)] by (simp add: valid_cube_def N_CUBES_def LATTICE_SIZE_def)
qed

lemma lattice_F_short_range:
  assumes "\<And>Xi r d i j. 1 \<le> d \<Longrightarrow> pw Xi r d i j = 0"
  shows "lattice_F n pw X e = (\<Sum>j<n. pw (X ! e) (X ! e - X ! j) (dist3 (X ! e) (X ! j)) e j)"
  unfolding lattice_F_def
  by (intro sum.cong refl) (simp add: assms not_less)

text \<open>
  C1. For \<open>n\<close> live entities that all lie in interior cubes of the lattice (each lattice
  coordinate from 1 to \<open>LATTICE_SIZE - 2\<close>) and a pairwise interaction that is zero whenever
  the distance is at least \<open>CUBE_SIZE\<close>, \<open>build_lattice\<close> and then
  \<open>compute_lattice_pwints\<close> succeed, and for every live entity they leave the same
  \<open>d_dX[i]\<close>, \<open>d_nNBs[i]\<close> and \<open>d_sum_v[i]\<close> as \<open>compute_tiles\<close> from the same arrays. Sums
  are sums of reals, so their order does not matter; the sorting routine is any that sorts
  by key.
\<close>

theorem lattice_evaluator_equals_tiled:
  fixes X :: "'a::real_vector Pt list"
  assumes "key_sorter srt" and "int n \<le> n_max"
    and "n \<le> length (d_cube_id lat0)" and "n \<le> length (d_cell_id lat0)"
    and "length (d_cube_start lat0) = nat N_CUBES" and "length (d_cube_end lat0) = nat N_CUBES"
    and "n \<le> length dX" and "n \<le> length sum_v" and "n \<le> length nNBs"
    and "\<forall>i<n. interior_cube (X ! i)"
    and "\<forall>Xi r d i j. CUBE_SIZE \<le> d \<longrightarrow> pw_int Xi r d i j = 0"
  shows "\<exists>lat dXl sum_vl nNBsl.
           build_lattice n_max srt (int n) X CUBE_SIZE lat0 = Inr lat \<and>
           compute_lattice_pwints n pw_int X dX old_v sum_v nNBs lat = Inr (dXl, sum_vl, nNBsl) \<and>
           (case compute_tiles n pw_int shX0 X dX old_v sum_v nNBs of (dXt, sum_vt, nNBst) \<Rightarrow>
              \<forall>i<n. dXl ! i = dXt ! i \<and> nNBsl ! i = nNBst ! i \<and> sum_vl ! i = sum_vt ! i)"
proof -
  have val: "\<forall>i<n. valid_cube (cube_id_of 1 (X ! i))"
  proof (intro allI impI)
    fix i assume "i < n"
    then have "interior_cube (X ! i)" using assms(10) by simp
    from interior_cube_id[OF this] show "valid_cube (cube_id_of 1 (X ! i))"
      by (simp add: valid_cube_def N_CUBES_def LATTICE_SIZE_def)
  qed
  obtain lat where b: "build_lattice n_max srt (int n) X 1 lat0 = Inr lat"
    and ok: "lattice_ok n 1 X lat"
    using build_lattice_result[OF assms(1-6), of 1 X] val by blast
  note D = lattice_okD[OF ok]
  note pf = perm_facts[OF D(1,2)]
  have cv: "valid_cube (d_cube_id lat ! i + h_moore_nhood ! j)" if "i < n" "j < 27" for i j
  proof -
    have "interior_cube (X ! (d_cell_id lat ! i))" using assms(10) pf(1)[OF that(1)] by simp
    from interior_nhood_valid[OF this that(2)] show ?thesis by (simp add: D(3)[OF that(1)])
  qed
  obtain dXl sum_vl nNBsl where
    r: "compute_lattice_pwints n pw_int X dX old_v sum_v nNBs lat = Inr (dXl, sum_vl, nNBsl)"
    using lattice_kernel_total[OF ok assms(7-9) cv, of pw_int old_v] by (metis prod_cases3)
  note L = lattice_kernel_result[OF ok assms(7-9) r]
  have sr: "\<And>Xi r d i j. 1 \<le> d \<Longrightarrow> pw_int Xi r d i j = 0"
    using assms(11) by (simp add: CUBE_SIZE_def)
  have eq: "\<forall>i<n. dXl ! i = (\<Sum>j<n. pw_int (X ! i) (X ! i - X ! j) (dist3 (X ! i) (X ! j)) i j) \<and>
                  nNBsl ! i = nNBs ! i + int (card (neighbours n X i)) \<and>
                  sum_vl ! i = sum_v ! i + sum ((!) old_v) (neighbours n X i)"
    using L by (simp add: lattice_F_short_range[OF sr])
  show ?thesis
    apply (rule exI[of _ lat], rule exI[of _ dXl], rule exI[of _ sum_vl], rule exI[of _ nNBsl])
    using b r eq assms(7-9) by (simp add: CUBE_SIZE_def compute_tiles_result)
qed

theorem lattice_evaluator_equals_tiled_witness:
  "\<exists>lat dXl sum_vl nNBsl.
      build_lattice 2 (sort_key fst) 2 [Pt 0 0 0 (0::real), Pt (3/5) 0 0 0] CUBE_SIZE lat2 = Inr lat \<and>
      compute_lattice_pwints 2 pw_short [Pt 0 0 0 0, Pt (3/5) 0 0 0] [0, 0]
         [Float3 1 0 0, Float3 0 2 0] [0, 0] [0, 0] lat = Inr (dXl, sum_vl, nNBsl) \<and>
      dXl ! 0 = Pt (- 3/5) 0 0 1 \<and> nNBsl ! 0 = 2 \<and> sum_vl ! 0 = Float3 1 2 0 \<and>
      dXl ! 1 = Pt (3/5) 0 0 1"
proof -
  let ?X = "[Pt 0 0 0 (0::real), Pt (3/5) 0 0 0]"
  let ?ov = "[Float3 1 0 0, Float3 0 2 0]"
  have int: "\<forall>i<2. interior_cube (?X ! i)"
    by (simp add: less_2_cases_iff interior_cube_def CUBE_SIZE_def LATTICE_SIZE_def)
  have sr: "\<forall>Xi r d i j. CUBE_SIZE \<le> d \<longrightarrow> pw_short Xi r d i j = 0"
    by (simp add: pw_short_def CUBE_SIZE_def)
  have "\<exists>lat dXl sum_vl nNBsl.
           build_lattice 2 (sort_key fst) (int 2) ?X CUBE_SIZE lat2 = Inr lat \<and>
           compute_lattice_pwints 2 pw_short ?X [0, 0] ?ov [0, 0] [0, 0] lat = Inr (dXl, sum_vl, nNBsl) \<and>
           (case compute_tiles 2 pw_short (\<lambda>b. []) ?X [0, 0] ?ov [0, 0] [0, 0] of
             (dXt, sum_vt, nNBst) \<Rightarrow>
              \<forall>i<2. dXl ! i = dXt ! i \<and> nNBsl ! i = nNBst ! i \<and> sum_vl ! i = sum_vt ! i)"
    by (rule lattice_evaluator_equals_tiled[OF key_sorter_sort_key _ _ _ _ _ _ _ _ int sr])
      (simp_all add: lat2_def)
  then obtain lat dXl sum_vl nNBsl where
    b: "build_lattice 2 (sort_key fst) (int 2) ?X CUBE_SIZE lat2 = Inr lat"
    and r: "compute_lattice_pwints 2 pw_short ?X [0, 0] ?ov [0, 0] [0, 0] lat = Inr (dXl, sum_vl, nNBsl)"
    and e: "(case compute_tiles 2 pw_short (\<lambda>b. []) ?X [0, 0] ?ov [0, 0] [0, 0] of
             (dXt, sum_vt, nNBst) \<Rightarrow>
              \<forall>i<2. dXl ! i = dXt ! i \<and> nNBsl ! i = nNBst ! i \<and> sum_vl ! i = sum_vt ! i)"
    by (elim exE conjE)
  have t: "compute_tiles 2 pw_short (\<lambda>b. []) ?X [0, 0] ?ov [0, 0] [0, 0] =
     ([Pt (- 3/5) 0 0 1, Pt (3/5) 0 0 1], [Float3 1 2 0, Float3 1 2 0], [2, 2])"
    by (simp add: compute_tiles_result eval_nat_numeral neighbours_Suc dist3_def norm3df_def
        pw_short_def zero_float3_def plus_float3_def zero_Pt_def plus_Pt_def minus_Pt_def)
  from e have e': "\<And>i. i < 2 \<Longrightarrow> dXl ! i = [Pt (- 3/5) 0 0 1, Pt (3/5) 0 0 1] ! i \<and>
      nNBsl ! i = [2, 2] ! i \<and> sum_vl ! i = [Float3 1 2 0, Float3 1 2 0] ! i"
    unfolding t by simp
  have "dXl ! 0 = Pt (- 3/5) 0 0 1 \<and> nNBsl ! 0 = 2 \<and> sum_vl ! 0 = Float3 1 2 0"
    using e'[of 0] by simp
  moreover have "dXl ! 1 = Pt (3/5) 0 0 1" using e'[of 1] by simp
  ultimately show ?thesis
    by (rule_tac exI[of _ lat], rule_tac exI[of _ dXl], rule_tac exI[of _ sum_vl],
        rule_tac exI[of _ nNBsl]) (use b r in simp)
qed

lemma dist3_commute: "dist3 a b = dist3 b a"
proof -
  have "\<And>u v :: real. (u - v) * (u - v) = (v - u) * (v - u)" by (simp add: algebra_simps)
  then show ?thesis by (simp add: dist3_def norm3df_def)
qed

lemma counted_member:
  assumes "j \<in> neighbours n X i"
    and "nNBs' ! i = nNBs ! i + int (card (neighbours n X i))"
    and "sum_v' ! i = sum_v ! i + sum ((!) old_v) (neighbours n X i)"
  shows "counted n X old_v sum_v nNBs sum_v' nNBs' i j"
proof -
  have c: "card (neighbours n X i) = Suc (card (neighbours n X i - {j}))"
    by (rule card.remove[OF finite_neighbours assms(1)])
  have s: "sum ((!) old_v) (neighbours n X i) = old_v ! j + sum ((!) old_v) (neighbours n X i - {j})"
    by (rule sum.remove[OF finite_neighbours assms(1)])
  show ?thesis unfolding counted_def assms(2,3) c s by (simp add: add.assoc)
qed

lemma interior_moore_in_lattice:
  assumes "interior_cube p"
  shows "moore_in_lattice p"
  unfolding moore_in_lattice_def CUBE_SIZE_def
proof
  fix ofs assume "ofs \<in> set h_moore_nhood"
  then obtain j where "j < 27" "ofs = h_moore_nhood ! j"
    by (metis in_set_conv_nth length_h_moore_nhood)
  then show "valid_cube (cube_id_of 1 p + ofs)"
    using interior_nhood_valid[OF assms] by simp
qed

lemma moore_in_lattice_nth:
  assumes "moore_in_lattice p" "j < 27"
  shows "valid_cube (cube_id_of 1 p + h_moore_nhood ! j)"
proof -
  have "h_moore_nhood ! j \<in> set h_moore_nhood"
    using assms(2) by (simp add: length_h_moore_nhood)
  then show ?thesis using assms(1) by (simp add: moore_in_lattice_def CUBE_SIZE_def)
qed

lemma moore_in_lattice_valid:
  assumes "moore_in_lattice p"
  shows "valid_cube (cube_id_of 1 p)"
proof -
  have "h_moore_nhood ! 1 = 0" by (simp add: h_moore_nhood_eq)
  then show ?thesis using moore_in_lattice_nth[OF assms, of 1] by simp
qed

lemma lattice_run_moore:
  fixes X :: "'a::real_vector Pt list"
  assumes "key_sorter srt" and "int n \<le> n_max"
    and "n \<le> length (d_cube_id lat0)" and "n \<le> length (d_cell_id lat0)"
    and "length (d_cube_start lat0) = nat N_CUBES" and "length (d_cube_end lat0) = nat N_CUBES"
    and "n \<le> length dX" and "n \<le> length sum_v" and "n \<le> length nNBs"
    and "\<forall>i<n. moore_in_lattice (X ! i)"
  obtains lat dXl sum_vl nNBsl where
    "build_lattice n_max srt (int n) X CUBE_SIZE lat0 = Inr lat"
    "compute_lattice_pwints n pw X dX old_v sum_v nNBs lat = Inr (dXl, sum_vl, nNBsl)"
    "\<And>e. e < n \<Longrightarrow> dXl ! e = lattice_F n pw X e"
    "\<And>e. e < n \<Longrightarrow> sum_vl ! e = sum_v ! e + sum ((!) old_v) (neighbours n X e)"
    "\<And>e. e < n \<Longrightarrow> nNBsl ! e = nNBs ! e + int (card (neighbours n X e))"
proof -
  have val: "\<forall>i<n. valid_cube (cube_id_of 1 (X ! i))"
    using assms(10) moore_in_lattice_valid by blast
  obtain lat where b: "build_lattice n_max srt (int n) X 1 lat0 = Inr lat"
    and ok: "lattice_ok n 1 X lat"
    using build_lattice_result[OF assms(1-6), of 1 X] val by blast
  note D = lattice_okD[OF ok]
  note pf = perm_facts[OF D(1,2)]
  have cv: "valid_cube (d_cube_id lat ! i + h_moore_nhood ! j)" if "i < n" "j < 27" for i j
  proof -
    have "moore_in_lattice (X ! (d_cell_id lat ! i))" using assms(10) pf(1)[OF that(1)] by simp
    from moore_in_lattice_nth[OF this that(2)] show ?thesis by (simp add: D(3)[OF that(1)])
  qed
  obtain dXl sum_vl nNBsl where
    r: "compute_lattice_pwints n pw X dX old_v sum_v nNBs lat = Inr (dXl, sum_vl, nNBsl)"
    using lattice_kernel_total[OF ok assms(7-9) cv, of pw old_v] by (metis prod_cases3)
  note L = lattice_kernel_result[OF ok assms(7-9) r]
  show thesis
  proof (rule that[of lat dXl sum_vl nNBsl])
    show "build_lattice n_max srt (int n) X CUBE_SIZE lat0 = Inr lat"
      using b by (simp add: CUBE_SIZE_def)
    show "compute_lattice_pwints n pw X dX old_v sum_v nNBs lat = Inr (dXl, sum_vl, nNBsl)"
      by (rule r)
    show "\<And>e. e < n \<Longrightarrow> dXl ! e = lattice_F n pw X e" by (rule L(1))
    show "\<And>e. e < n \<Longrightarrow> sum_vl ! e = sum_v ! e + sum ((!) old_v) (neighbours n X e)"
      by (rule L(2))
    show "\<And>e. e < n \<Longrightarrow> nNBsl ! e = nNBs ! e + int (card (neighbours n X e))"
      by (rule L(3))
  qed
qed

lemma lattice_first_thread_faults:
  fixes X :: "'a::real_vector Pt list"
  assumes ok: "lattice_ok n 1 X lat" and n: "0 < n"
    and len: "n \<le> length sum_v" "n \<le> length nNBs"
    and bad: "\<not> (\<forall>j<27. valid_cube (d_cube_id lat ! 0 + h_moore_nhood ! j))"
  shows "compute_lattice_pwints n pw X dX old_v sum_v nNBs lat = Inl OutOfBounds"
proof -
  note D = lattice_okD[OF ok]
  note pf = perm_facts[OF D(1,2)]
  have c: "d_cell_id lat ! 0 < n" by (rule pf(1)[OF n])
  have t: "compute_lattice_pwints_thread n X old_v pw lat 0 (dX, sum_v, nNBs) = Inl OutOfBounds"
    using lattice_thread_result[OF ok n, of sum_v nNBs old_v pw dX] c len bad by simp
  have "0 < ((n + TILE_SIZE - 1) div TILE_SIZE) * TILE_SIZE"
    using n by (simp add: TILE_SIZE_def) 
  then have g: "[0..<((n + TILE_SIZE - 1) div TILE_SIZE) * TILE_SIZE] =
                 0 # [Suc 0..<((n + TILE_SIZE - 1) div TILE_SIZE) * TILE_SIZE]"
    by (rule upt_conv_Cons)
  show ?thesis unfolding compute_lattice_pwints_def g by (simp add: t)
qed

lemma bottom_layer_faults:
  fixes X :: "real Pt list"
  assumes n: "0 < n" "n \<le> 2" and len: "n \<le> length sum_v" "n \<le> length nNBs"
    and ids: "\<forall>i<n. cube_id_of 1 (X ! i) = 1275"
  shows "\<exists>lat. build_lattice 2 (sort_key fst) (int n) X CUBE_SIZE lat2 = Inr lat \<and>
           compute_lattice_pwints n pw X dX old_v sum_v nNBs lat = Inl OutOfBounds"
proof -
  have val: "\<forall>i<n. valid_cube (cube_id_of 1 (X ! i))"
    using ids by (simp add: valid_cube_def N_CUBES_def LATTICE_SIZE_def)
  have "\<exists>lat. build_lattice 2 (sort_key fst) (int n) X 1 lat2 = Inr lat \<and> lattice_ok n 1 X lat"
    using build_lattice_result[OF key_sorter_sort_key, of n 2 lat2 1 X] n(2) val
    by (simp add: lat2_def)
  then obtain lat where b: "build_lattice 2 (sort_key fst) (int n) X 1 lat2 = Inr lat"
    and ok: "lattice_ok n 1 X lat" by blast
  note D = lattice_okD[OF ok]
  note pf = perm_facts[OF D(1,2)]
  have "d_cube_id lat ! 0 = 1275"
    using D(3)[OF n(1)] ids pf(1)[OF n(1)] by simp
  moreover have "h_moore_nhood ! 9 = - 2501" by (simp add: h_moore_nhood_eq)
  ultimately have nv: "\<not> valid_cube (d_cube_id lat ! 0 + h_moore_nhood ! 9)"
    by (simp add: valid_cube_def)
  have bad: "\<not> (\<forall>j<27. valid_cube (d_cube_id lat ! 0 + h_moore_nhood ! j))"
  proof
    assume a: "\<forall>j<27. valid_cube (d_cube_id lat ! 0 + h_moore_nhood ! j)"
    have "(9::nat) < 27" by simp
    with a have "valid_cube (d_cube_id lat ! 0 + h_moore_nhood ! 9)" by blast
    with nv show False by simp
  qed
  show ?thesis
    using b lattice_first_thread_faults[OF ok n(1) len bad, of pw dX old_v]
    by (simp add: CUBE_SIZE_def)
qed




lemma self_counted_zeroed:
  assumes "i < n"
    and "nNBs' ! i = 0 + int (card (neighbours n X i))"
    and "sum_v' ! i = 0 + sum ((!) old_v) (neighbours n X i)"
  shows "self_counted n X old_v sum_v' nNBs' i"
proof -
  have "counted n X old_v (replicate n 0) (replicate n 0) sum_v' nNBs' i i"
    using assms by (intro counted_member self_neighbour) simp_all
  then show ?thesis using assms(1) by (simp add: counted_def self_counted_def)
qed

lemma isolated_neighbours:
  assumes "i < n" "\<forall>k<n. k \<noteq> i \<longrightarrow> \<not> dist3 (X ! i) (X ! k) < 1"
  shows "neighbours n X i - {i} = {}"
  using assms by (auto simp: neighbours_def)

lemma add_rhs_after_self_counted:
  assumes len: "n \<le> length dXb"
    and sc: "\<And>k. k < n \<Longrightarrow> self_counted n X old_v sum_v' nNBs' k"
  shows "\<exists>dX'. add_rhs n sum_v' nNBs' dXb = Inr dX' \<and>
           (\<forall>i<n. (\<forall>k<n. k \<noteq> i \<longrightarrow> \<not> dist3 (X ! i) (X ! k) < 1) \<longrightarrow>
              dX' ! i = Pt (Pt_x (dXb ! i) + f3_x (old_v ! i)) (Pt_y (dXb ! i) + f3_y (old_v ! i))
                           (Pt_z (dXb ! i) + f3_z (old_v ! i)) (Pt_aux (dXb ! i)))"
proof -
  have nz: "\<not> (\<exists>i<n. nNBs' ! i = 0)"
  proof
    assume "\<exists>i<n. nNBs' ! i = 0"
    then obtain i where "i < n" "nNBs' ! i = 0" by blast
    with sc[of i] show False by (simp add: self_counted_def)
  qed
  let ?dX' = "map (\<lambda>k. if k < n then diffused (dXb ! k) (sum_v' ! k) (nNBs' ! k) else dXb ! k)
                  [0..<length dXb]"
  have r: "add_rhs n sum_v' nNBs' dXb = Inr ?dX'"
    using nz by (simp only: add_rhs_result[OF len] if_False)
  have "?dX' ! i = Pt (Pt_x (dXb ! i) + f3_x (old_v ! i)) (Pt_y (dXb ! i) + f3_y (old_v ! i))
                           (Pt_z (dXb ! i) + f3_z (old_v ! i)) (Pt_aux (dXb ! i))"
    if i: "i < n" and iso: "\<forall>k<n. k \<noteq> i \<longrightarrow> \<not> dist3 (X ! i) (X ! k) < 1" for i
  proof -
    have "nNBs' ! i = 1" "sum_v' ! i = old_v ! i"
      using sc[OF i] isolated_neighbours[OF i iso] by (simp_all add: self_counted_def)
    then show ?thesis using i len by (simp add: diffused_def)
  qed
  then show ?thesis using r by blast
qed




end
